theory Spec2Isabelle
  imports Complex_Main "HOL-Library.Word" "HOL-Library.Log_Nat"
begin

section \<open>JavaScript values\<close>

text \<open>
  A JavaScript string is a sequence of UTF-16 code units, and \<open>s.length\<close> counts code
  units. String literals of the source are written \<open>js ''...''\<close>.
\<close>

type_synonym code_unit = "16 word"
type_synonym jsstring = "code_unit list"

definition js :: "string \<Rightarrow> jsstring" where
  "js s = map of_char s"

text \<open>
  The code units matched by \<open>\s\<close> in a regular expression and stripped by
  \<open>String.prototype.trim\<close>: ECMAScript WhiteSpace and LineTerminator.
\<close>

definition isWhiteSpace :: "code_unit \<Rightarrow> bool" where
  "isWhiteSpace c =
     (c = 0x9 \<or> c = 0xA \<or> c = 0xB \<or> c = 0xC \<or> c = 0xD \<or> c = 0x20 \<or> c = 0xA0 \<or>
      c = 0x1680 \<or> (0x2000 \<le> c \<and> c \<le> 0x200A) \<or> c = 0x2028 \<or> c = 0x2029 \<or>
      c = 0x202F \<or> c = 0x205F \<or> c = 0x3000 \<or> c = 0xFEFF)"

definition nonSpace :: "code_unit \<Rightarrow> bool" where
  "nonSpace c = (\<not> isWhiteSpace c)"

text \<open>\<open>s.trim()\<close>: white space removed at both ends.\<close>

definition trim :: "jsstring \<Rightarrow> jsstring" where
  "trim s = rev (dropWhile isWhiteSpace (rev (dropWhile isWhiteSpace s)))"

text \<open>
  \<open>s.split(/\s+/)\<close>: the pieces between maximal runs of white space. The empty string
  gives one empty piece; a leading or trailing run gives an empty first or last piece.
\<close>

function split_ws :: "jsstring \<Rightarrow> jsstring list" where
  "split_ws s =
     (let w = takeWhile nonSpace s;
          rest = dropWhile nonSpace s
      in if rest = [] then [w] else w # split_ws (dropWhile isWhiteSpace rest))"
  by pat_completeness auto
termination
proof (relation "measure length")
  show "wf (measure length)" by simp
next
  fix s :: jsstring and w rest
  assume rest: "rest = dropWhile nonSpace s" and ne: "rest \<noteq> []"
  from ne obtain x r where xr: "rest = x # r" by (cases rest) auto
  have "\<not> nonSpace (hd rest)"
    unfolding rest using ne rest hd_dropWhile [of nonSpace s] by simp
  then have "isWhiteSpace x"
    unfolding xr by (simp add: nonSpace_def)
  then have "length (dropWhile isWhiteSpace rest) \<le> length r"
    using xr by (simp add: length_dropWhile_le)
  moreover have "length rest \<le> length s"
    using rest by (simp add: length_dropWhile_le)
  ultimately show "(dropWhile isWhiteSpace rest, s) \<in> measure length"
    using xr by simp
qed

declare split_ws.simps [simp del]

text \<open>
  A JavaScript number is an IEEE 754 binary64 value: a finite number, \<open>NaN\<close>, or one of
  the two infinities. A finite value is held as the real it denotes. The sign of zero
  is not modelled (the zero divisors that occur in the source are \<open>+0\<close>).
\<close>

datatype jsnum = Num real | NaN | PosInf | NegInf

text \<open>
  Rounding of a real to binary64, to nearest with ties to even. \<open>rne\<close> rounds to an
  integer; \<open>expo x\<close> is the binary exponent of a positive \<open>x\<close>
  (\<open>2 powi expo x \<le> x < 2 powi (expo x + 1)\<close>); \<open>ulp x\<close> is the spacing of the binary64
  numbers around \<open>x\<close>, with 53 significant bits and the subnormal spacing \<open>2 powi (-1074)\<close>
  below \<open>2 powi (-1022)\<close>; a magnitude that rounds to \<open>2 ^ 1024\<close> or more overflows.
\<close>

definition rne :: "real \<Rightarrow> int" where
  "rne x =
     (let n = \<lfloor>x\<rfloor>; f = x - of_int n
      in if f < 1 / 2 then n else if 1 / 2 < f then n + 1 else if even n then n else n + 1)"

definition expo :: "real \<Rightarrow> int" where
  "expo x = (if 1 \<le> x then bitlen \<lfloor>x\<rfloor> - 1 else - bitlen (\<lceil>1 / x\<rceil> - 1))"

definition ulp :: "real \<Rightarrow> real" where
  "ulp x = 2 powi (max (expo x) (- 1022) - 52)"

definition roundMag :: "real \<Rightarrow> real" where
  "roundMag x = of_int (rne (x / ulp x)) * ulp x"

text \<open>\<open>2 ^ 1024\<close>, written so that it evaluates quickly.\<close>

definition overflowBound :: real where
  "overflowBound = (2 ^ 32) ^ 32"

definition binary64 :: "real \<Rightarrow> jsnum" where
  "binary64 x =
     (if x = 0 then Num 0
      else (let m = roundMag \<bar>x\<bar>
            in if overflowBound \<le> m then (if 0 < x then PosInf else NegInf)
               else Num (if 0 < x then m else - m)))"

text \<open>The reals that are binary64 numbers, and the smallest positive one.\<close>

definition isDouble :: "real \<Rightarrow> bool" where
  "isDouble x = (binary64 x = Num x)"

definition minSubnormal :: real where
  "minSubnormal = 2 powi (- 1074)"

text \<open>The order of the numbers; \<open>NaN\<close> compares with nothing.\<close>

fun js_le :: "jsnum \<Rightarrow> jsnum \<Rightarrow> bool" where
  "js_le (Num a) (Num b) = (a \<le> b)"
| "js_le (Num a) PosInf = True"
| "js_le NegInf (Num b) = True"
| "js_le NegInf NegInf = True"
| "js_le NegInf PosInf = True"
| "js_le PosInf PosInf = True"
| "js_le x y = False"

text \<open>\<open>Math.max(0, x)\<close>.\<close>

fun js_max0 :: "jsnum \<Rightarrow> jsnum" where
  "js_max0 (Num a) = Num (max 0 a)"
| "js_max0 NaN = NaN"
| "js_max0 PosInf = PosInf"
| "js_max0 NegInf = Num 0"

text \<open>\<open>a / b\<close>: a zero divisor does not raise.\<close>

fun js_div :: "jsnum \<Rightarrow> jsnum \<Rightarrow> jsnum" where
  "js_div (Num a) (Num b) =
     (if b = 0 then (if a = 0 then NaN else if 0 < a then PosInf else NegInf)
      else binary64 (a / b))"
| "js_div (Num a) PosInf = Num 0"
| "js_div (Num a) NegInf = Num 0"
| "js_div PosInf (Num b) = (if 0 \<le> b then PosInf else NegInf)"
| "js_div NegInf (Num b) = (if 0 \<le> b then NegInf else PosInf)"
| "js_div x y = NaN"

text \<open>\<open>x * k\<close> for a finite constant \<open>k\<close>.\<close>

fun js_mul :: "jsnum \<Rightarrow> real \<Rightarrow> jsnum" where
  "js_mul (Num a) k = binary64 (a * k)"
| "js_mul NaN k = NaN"
| "js_mul PosInf k = (if k = 0 then NaN else if 0 < k then PosInf else NegInf)"
| "js_mul NegInf k = (if k = 0 then NaN else if 0 < k then NegInf else PosInf)"

text \<open>\<open>x + y\<close>.\<close>

fun js_add :: "jsnum \<Rightarrow> jsnum \<Rightarrow> jsnum" where
  "js_add (Num a) (Num b) = binary64 (a + b)"
| "js_add NaN y = NaN"
| "js_add x NaN = NaN"
| "js_add PosInf NegInf = NaN"
| "js_add NegInf PosInf = NaN"
| "js_add PosInf y = PosInf"
| "js_add x PosInf = PosInf"
| "js_add NegInf y = NegInf"
| "js_add x NegInf = NegInf"

datatype js_error = TypeError

text \<open>
  \<open>xs.findIndex(p)\<close>: the index of the first element satisfying \<open>p\<close>, or \<open>-1\<close>.
\<close>

fun findIndex_from :: "('a \<Rightarrow> bool) \<Rightarrow> 'a list \<Rightarrow> int \<Rightarrow> int" where
  "findIndex_from p [] i = -1"
| "findIndex_from p (x # xs) i = (if p x then i else findIndex_from p xs (i + 1))"

definition findIndex :: "('a \<Rightarrow> bool) \<Rightarrow> 'a list \<Rightarrow> int" where
  "findIndex p xs = findIndex_from p xs 0"

text \<open>\<open>xs[i]\<close>: \<open>undefined\<close> (here \<open>None\<close>) out of range.\<close>

definition js_index :: "'a list \<Rightarrow> int \<Rightarrow> 'a option" where
  "js_index xs i = (if 0 \<le> i \<and> i < int (length xs) then Some (xs ! nat i) else None)"

section \<open>Data model (types.ts)\<close>

text \<open>
  \<open>Caption\<close> and \<open>Clip\<close> both carry \<open>startSeconds\<close> and \<open>endSeconds\<close>; the two
  fields are declared once, in a common parent record. The fields \<open>text\<close>,
  \<open>start\<close>, \<open>end\<close> and \<open>id\<close> are named \<open>captionText\<close>, \<open>startStr\<close>, \<open>endStr\<close>
  and \<open>clipId\<close>.
\<close>

record timed =
  startSeconds :: real
  endSeconds :: real

record caption = timed +
  captionText :: jsstring
  startStr :: jsstring
  endStr :: jsstring

record clip = timed +
  clipId :: jsstring
  title :: jsstring
  startTime :: jsstring
  endTime :: jsstring
  description :: jsstring
  viralScore :: real
  captions :: "caption list"

section \<open>Caption overlay of the render loop (ClipResult, render)\<close>

text \<open>
  The caption lookup of \<open>render\<close>: \<open>findIndex\<close> over the clip's captions with the test
  \<open>vidTime >= c.startSeconds && vidTime <= c.endSeconds\<close>, then
  \<open>activeClip.captions[captionIndex]\<close> when the index is not \<open>-1\<close>. Reading a field
  of \<open>undefined\<close> would raise a TypeError.
\<close>

definition captionActive :: "real \<Rightarrow> caption \<Rightarrow> bool" where
  "captionActive vidTime c = (vidTime \<ge> startSeconds c \<and> vidTime \<le> endSeconds c)"

definition resolveCaption :: "caption list \<Rightarrow> real \<Rightarrow> js_error + caption option" where
  "resolveCaption cs vidTime =
     (let captionIndex = findIndex (captionActive vidTime) cs
      in if captionIndex \<noteq> -1
         then (case js_index cs captionIndex of
                 None \<Rightarrow> Inl TypeError
               | Some currentCaption \<Rightarrow> Inr (Some currentCaption))
         else Inr None)"

text \<open>
  The word loop of \<open>render\<close>: \<open>i\<close> is the loop index, \<open>charAccumulator\<close> the running
  count; the result is \<open>activeWordIndex\<close> after the loop (\<open>-1\<close> when no word matched).
\<close>

fun wordLoop :: "real \<Rightarrow> real \<Rightarrow> jsstring list \<Rightarrow> nat \<Rightarrow> nat \<Rightarrow> int" where
  "wordLoop timePassed charDuration [] i charAccumulator = -1"
| "wordLoop timePassed charDuration (w # ws) i charAccumulator =
     (let wLen = length w + 1;
          wStartTime = real charAccumulator * charDuration;
          wEndTime = real (charAccumulator + wLen) * charDuration
      in if timePassed \<ge> wStartTime \<and> timePassed < wEndTime then int i
         else wordLoop timePassed charDuration ws (i + 1) (charAccumulator + wLen))"

definition captionWords :: "caption \<Rightarrow> jsstring list" where
  "captionWords currentCaption = split_ws (trim (captionText currentCaption))"

definition activeWordIndex :: "caption \<Rightarrow> real \<Rightarrow> int" where
  "activeWordIndex currentCaption vidTime =
     (let words = captionWords currentCaption;
          captionDuration = endSeconds currentCaption - startSeconds currentCaption;
          timePassed = vidTime - startSeconds currentCaption;
          totalChars = length (captionText currentCaption);
          charDuration = captionDuration / real (max 1 totalChars);
          idx = wordLoop timePassed charDuration words 0 0
      in if idx = -1 \<and> timePassed \<ge> captionDuration * 0.9
         then int (length words) - 1 else idx)"

text \<open>What one frame draws over the video: nothing, or the words with the highlighted index.\<close>

record overlay =
  ov_words :: "jsstring list"
  ov_activeWordIndex :: int

definition render_captions :: "bool \<Rightarrow> clip option \<Rightarrow> real \<Rightarrow> js_error + overlay option" where
  "render_captions showCaptions activeClip vidTime =
     (case activeClip of
        None \<Rightarrow> Inr None
      | Some c \<Rightarrow>
          if showCaptions
          then (case resolveCaption (captions c) vidTime of
                  Inl e \<Rightarrow> Inl e
                | Inr None \<Rightarrow> Inr None
                | Inr (Some currentCaption) \<Rightarrow>
                    Inr (Some \<lparr>ov_words = captionWords currentCaption,
                               ov_activeWordIndex = activeWordIndex currentCaption vidTime\<rparr>))
          else Inr None)"




text \<open>The half-open caption window \<open>[startSeconds, endSeconds)\<close> of the specification.\<close>

definition spec_captionWindow :: "caption \<Rightarrow> real \<Rightarrow> bool" where
  "spec_captionWindow c t = (startSeconds c \<le> t \<and> t < endSeconds c)"

definition wordChars :: "jsstring list \<Rightarrow> nat" where
  "wordChars ws = sum_list (map (\<lambda>w. length w + 1) ws)"

section \<open>Regular-expression replacement and the export file name\<close>

text \<open>
  \<open>s.replace(re, rep)\<close> for a global pattern that matches one code unit at a time:
  every matching code unit is replaced, the others are kept.
\<close>

fun replaceAll :: "(code_unit \<Rightarrow> bool) \<Rightarrow> jsstring \<Rightarrow> jsstring \<Rightarrow> jsstring" where
  "replaceAll m rep [] = []"
| "replaceAll m rep (c # cs) =
     (if m c then rep @ replaceAll m rep cs else c # replaceAll m rep cs)"

text \<open>
  Case-insensitive matching without the unicode flag compares canonicalised code units
  (upper-casing). Only the ASCII letters are mapped here: a code unit above 127 is never
  canonicalised to an ASCII one, so it cannot fall into a class of ASCII ranges.
\<close>

definition canonicalize :: "code_unit \<Rightarrow> code_unit" where
  "canonicalize ch = (if 0x61 \<le> ch \<and> ch \<le> 0x7A then ch - 0x20 else ch)"

text \<open>The pattern \<open>/[^a-z0-9]/gi\<close>: the canonical forms of \<open>a-z\<close> are \<open>A-Z\<close>.\<close>

definition matchesNonAlnum :: "code_unit \<Rightarrow> bool" where
  "matchesNonAlnum ch =
     (let c = canonicalize ch
      in \<not> ((0x41 \<le> c \<and> c \<le> 0x5A) \<or> (0x30 \<le> c \<and> c \<le> 0x39)))"

definition exportFileName :: "clip \<Rightarrow> jsstring" where
  "exportFileName c = replaceAll matchesNonAlnum (js ''_'') (title c) @ js ''.webm''"

text \<open>The alphanumerics of the specification: ASCII digits and letters.\<close>

definition spec_alphanumeric :: "code_unit \<Rightarrow> bool" where
  "spec_alphanumeric ch =
     ((0x30 \<le> ch \<and> ch \<le> 0x39) \<or> (0x41 \<le> ch \<and> ch \<le> 0x5A) \<or> (0x61 \<le> ch \<and> ch \<le> 0x7A))"

section \<open>Player and export state (ClipResult)\<close>

datatype recorder_state = Inactive | Recording | Paused

text \<open>The video element as far as the component uses it.\<close>

record video =
  v_currentTime :: real
  v_paused :: bool

type_synonym blobpart = "8 word list"

text \<open>
  The MediaRecorder created by \<open>handleDownloadClip\<close>. Its \<open>onstop\<close> closure captures
  the clip and the MIME type of that call. \<open>r_stopPending\<close> holds between
  \<open>recorder.stop()\<close> and the delivery of the recorder's final data and stop events.
\<close>

record recorder =
  r_state :: recorder_state
  r_mimeType :: jsstring
  r_clip :: clip
  r_hasAudio :: bool
  r_stopPending :: bool

text \<open>The calls the component makes on the platform, in order.\<close>

datatype effect =
    VideoPause
  | VideoPlay
  | RecorderStart
  | RecorderStop
  | Download jsstring "blobpart list" jsstring
  | ConsoleError jsstring
  | UnhandledRejection

text \<open>
  The component: its refs and its React state. Two fields are bookkeeping of the model:
  \<open>exportPlayPending\<close> (the play promise of the export is not settled yet) and
  \<open>effects\<close> (the platform calls made so far).
\<close>

record component =
  videoRef :: "video option"
  canvasRef :: bool
  activeClip :: "clip option"
  currentClipId :: "jsstring option"
  showCaptions :: bool
  isPlaying :: bool
  currentTime :: jsnum
  progress :: jsnum
  isExporting :: bool
  exportProgress :: jsnum
  mediaRecorderRef :: "recorder option"
  recordedChunksRef :: "blobpart list"
  exportPlayPending :: bool
  effects :: "effect list"

text \<open>\<open>finishExport\<close>: stops a live recorder and pauses the video; otherwise nothing.\<close>

definition finishExport :: "component \<Rightarrow> component" where
  "finishExport s =
     (case mediaRecorderRef s of
        None \<Rightarrow> s
      | Some r \<Rightarrow>
          if r_state r \<noteq> Inactive
          then s\<lparr>mediaRecorderRef := Some (r\<lparr>r_state := Inactive, r_stopPending := True\<rparr>),
                 videoRef := map_option (\<lambda>v. v\<lparr>v_paused := True\<rparr>) (videoRef s),
                 effects := effects s @ [RecorderStop] @
                            (case videoRef s of None \<Rightarrow> [] | Some v \<Rightarrow> [VideoPause])\<rparr>
          else s)"

text \<open>
  \<open>handleTimeUpdate\<close>, the handler of the video's \<open>timeupdate\<close> event. \<open>isExporting\<close>
  is the value the handler closed over, that is the state's value when the event
  arrives. The two differences, the quotient and the product are rounded to binary64;
  the comparison with \<open>endSeconds\<close> is exact.
\<close>

definition handleTimeUpdate :: "component \<Rightarrow> component" where
  "handleTimeUpdate s =
     (case videoRef s of
        None \<Rightarrow> s
      | Some v \<Rightarrow>
         (case activeClip s of
            None \<Rightarrow> s
          | Some c \<Rightarrow>
             (let vidTime = v_currentTime v;
                  clipDuration = binary64 (endSeconds c - startSeconds c);
                  currentClipTime = js_max0 (binary64 (vidTime - startSeconds c));
                  s1 = s\<lparr>currentTime := currentClipTime,
                         progress := js_mul (js_div currentClipTime clipDuration) 100\<rparr>;
                  s2 = (if vidTime \<ge> endSeconds c
                        then (if isExporting s then finishExport s1
                              else s1\<lparr>videoRef := Some (v\<lparr>v_paused := True,
                                                           v_currentTime := startSeconds c\<rparr>),
                                      isPlaying := False,
                                      effects := effects s1 @ [VideoPause]\<rparr>)
                        else s1)
              in if isExporting s
                 then s2\<lparr>exportProgress := js_mul (js_div currentClipTime clipDuration) 100\<rparr>
                 else s2)))"

text \<open>
  What \<open>handleDownloadClip\<close> asks of the browser: whether the capture calls and the
  MediaRecorder constructor succeed, whether the video stream has an audio track,
  whether \<open>video/webm;codecs=vp9\<close> is supported, and whether \<open>video.play()\<close> gets past
  its checks (it then clears \<open>paused\<close> at once; its promise may still be rejected later).
\<close>

record platform =
  captureOk :: bool
  hasAudioTrack :: bool
  vp9Supported :: bool
  playStarts :: bool

definition chooseMimeType :: "platform \<Rightarrow> jsstring" where
  "chooseMimeType p =
     (if vp9Supported p then js ''video/webm;codecs=vp9'' else js ''video/webm'')"

text \<open>
  \<open>handleDownloadClip\<close> up to its last statement. The function has no \<open>await\<close>: it runs
  in one piece and leaves the promise of \<open>video.play()\<close> pending. When a capture call
  or the constructor throws, the state updates made so far stay and the function's
  promise is rejected.
\<close>

definition handleDownloadClip :: "platform \<Rightarrow> component \<Rightarrow> component" where
  "handleDownloadClip p s =
     (case videoRef s of
        None \<Rightarrow> s
      | Some v \<Rightarrow>
         (case activeClip s of
            None \<Rightarrow> s
          | Some c \<Rightarrow>
             if canvasRef s
             then (let s1 = s\<lparr>isExporting := True, exportProgress := Num 0,
                               recordedChunksRef := [],
                               videoRef := Some (v\<lparr>v_paused := True,
                                                    v_currentTime := startSeconds c\<rparr>),
                               effects := effects s @ [VideoPause]\<rparr>
                   in if captureOk p
                      then s1\<lparr>mediaRecorderRef :=
                                 Some \<lparr>r_state = Recording, r_mimeType = chooseMimeType p,
                                       r_clip = c, r_hasAudio = hasAudioTrack p,
                                       r_stopPending = False\<rparr>,
                               videoRef := Some (v\<lparr>v_paused := \<not> playStarts p,
                                                    v_currentTime := startSeconds c\<rparr>),
                               exportPlayPending := True,
                               effects := effects s1 @ [RecorderStart, VideoPlay]\<rparr>
                      else s1\<lparr>effects := effects s1 @ [UnhandledRejection]\<rparr>)
             else s))"

text \<open>\<open>recorder.ondataavailable\<close> and \<open>recorder.onstop\<close>.\<close>

definition ondataavailable :: "blobpart \<Rightarrow> component \<Rightarrow> component" where
  "ondataavailable d s =
     (if length d > 0 then s\<lparr>recordedChunksRef := recordedChunksRef s @ [d]\<rparr> else s)"

definition onstop :: "recorder \<Rightarrow> component \<Rightarrow> component" where
  "onstop r s =
     s\<lparr>effects := effects s @
                   [Download (exportFileName (r_clip r)) (recordedChunksRef s) (r_mimeType r)],
       isExporting := False,
       exportProgress := Num 0,
       videoRef := map_option (\<lambda>v. v\<lparr>v_currentTime := startSeconds (r_clip r)\<rparr>)
                     (videoRef s)\<rparr>"

text \<open>The \<open>catch\<close> handler on the play promise of \<open>handleDownloadClip\<close>.\<close>

definition exportPlayFailed :: "component \<Rightarrow> component" where
  "exportPlayFailed s =
     s\<lparr>effects := effects s @ [ConsoleError (js ''Export playback failed'')],
       isExporting := False\<rparr>"

text \<open>
  The events that reach the component during an export: the video reports a position
  (\<open>timeupdate\<close>), the recorder delivers its data and stop events after a
  \<open>stop()\<close>, the play promise is rejected.
\<close>

datatype event = TimeUpdate real | RecorderStopped blobpart | PlayRejected

fun step :: "event \<Rightarrow> component \<Rightarrow> component" where
  "step (TimeUpdate t) s =
     handleTimeUpdate (s\<lparr>videoRef := map_option (\<lambda>v. v\<lparr>v_currentTime := t\<rparr>) (videoRef s)\<rparr>)"
| "step (RecorderStopped d) s =
     (case mediaRecorderRef s of
        None \<Rightarrow> s
      | Some r \<Rightarrow>
          if r_stopPending r
          then onstop r (ondataavailable d
                 (s\<lparr>mediaRecorderRef := Some (r\<lparr>r_stopPending := False\<rparr>)\<rparr>))
          else s)"
| "step PlayRejected s =
     (if exportPlayPending s then exportPlayFailed (s\<lparr>exportPlayPending := False\<rparr>) else s)"

fun run :: "event list \<Rightarrow> component \<Rightarrow> component" where
  "run [] s = s"
| "run (e # es) s = run es (step e s)"

definition stopCalls :: "component \<Rightarrow> nat" where
  "stopCalls s = count_list (effects s) RecorderStop"

fun isDownload :: "effect \<Rightarrow> bool" where
  "isDownload (Download n b m) = True"
| "isDownload e = False"

definition downloads :: "component \<Rightarrow> nat" where
  "downloads s = length (filter isDownload (effects s))"

text \<open>
  The phases of one export, with \<open>n\<close> stop calls and \<open>d\<close> downloads made before it:
  recording, stopped with the recorder's stop event outstanding, and saved.
\<close>

definition exportInv :: "clip \<Rightarrow> nat \<Rightarrow> nat \<Rightarrow> component \<Rightarrow> bool" where
  "exportInv c n d s =
     (activeClip s = Some c \<and> videoRef s \<noteq> None \<and>
      (\<exists>r. mediaRecorderRef s = Some r \<and>
         ((r_state r = Recording \<and> \<not> r_stopPending r \<and> stopCalls s = n \<and> downloads s = d) \<or>
          (r_state r = Inactive \<and> r_stopPending r \<and> stopCalls s = n + 1 \<and> downloads s = d) \<or>
          (r_state r = Inactive \<and> \<not> r_stopPending r \<and> stopCalls s = n + 1 \<and> downloads s = d + 1))))"

definition recordingInv :: "clip \<Rightarrow> nat \<Rightarrow> nat \<Rightarrow> component \<Rightarrow> bool" where
  "recordingInv c n d s =
     (activeClip s = Some c \<and> videoRef s \<noteq> None \<and>
      (\<exists>r. mediaRecorderRef s = Some r \<and> r_state r = Recording \<and> \<not> r_stopPending r) \<and>
      stopCalls s = n \<and> downloads s = d)"

definition stoppedInv :: "clip \<Rightarrow> nat \<Rightarrow> nat \<Rightarrow> component \<Rightarrow> bool" where
  "stoppedInv c n d s =
     (activeClip s = Some c \<and> videoRef s \<noteq> None \<and>
      (\<exists>r. mediaRecorderRef s = Some r \<and> r_state r = Inactive \<and> r_stopPending r) \<and>
      stopCalls s = n + 1 \<and> downloads s = d)"

definition savedInv :: "clip \<Rightarrow> nat \<Rightarrow> nat \<Rightarrow> component \<Rightarrow> bool" where
  "savedInv c n d s =
     (activeClip s = Some c \<and> videoRef s \<noteq> None \<and>
      (\<exists>r. mediaRecorderRef s = Some r \<and> r_state r = Inactive \<and> \<not> r_stopPending r) \<and>
      stopCalls s = n + 1 \<and> downloads s = d + 1)"

text \<open>The progress ratio of the specification: relative time over duration, clamped to \<open>[0,1]\<close>.\<close>

definition spec_progressRatio :: "clip \<Rightarrow> real \<Rightarrow> real" where
  "spec_progressRatio c t =
     min 1 (max 0 (max 0 (t - startSeconds c) / (endSeconds c - startSeconds c)))"

section \<open>Timestamp parsing (geminiService, parseTime)\<close>

definition isDigit :: "code_unit \<Rightarrow> bool" where
  "isDigit c = (0x30 \<le> c \<and> c \<le> 0x39)"

definition colon :: code_unit where
  "colon = 0x3A"

text \<open>The pattern \<open>/[^0-9:]/g\<close>.\<close>

definition matchesNonDigitColon :: "code_unit \<Rightarrow> bool" where
  "matchesNonDigitColon c = (\<not> (isDigit c \<or> c = colon))"

text \<open>
  \<open>s.split(sep)\<close> for a one-character separator: the empty string gives one empty
  piece. The second case of the inner \<open>case\<close> cannot occur (the result is never empty).
\<close>

fun splitChar :: "code_unit \<Rightarrow> jsstring \<Rightarrow> jsstring list" where
  "splitChar sep [] = [[]]"
| "splitChar sep (c # cs) =
     (if c = sep then [] # splitChar sep cs
      else (case splitChar sep cs of
              p # ps \<Rightarrow> (c # p) # ps
            | [] \<Rightarrow> [[c]]))"

text \<open>The decimal value of a run of digits; the empty run counts 0.\<close>

definition decimalValue :: "jsstring \<Rightarrow> nat" where
  "decimalValue s = foldl (\<lambda>n c. 10 * n + unat (c - 0x30)) 0 s"

text \<open>
  \<open>Number(s)\<close> for a string of decimal digits: its decimal value rounded to binary64,
  \<open>0\<close> for the empty string, \<open>Infinity\<close> when the value overflows. \<open>None\<close> stands for
  every other string, whose conversion (possibly \<open>NaN\<close>) is not modelled.
\<close>

definition Number_digits :: "jsstring \<Rightarrow> jsnum option" where
  "Number_digits s =
     (if list_all isDigit s then Some (binary64 (real (decimalValue s))) else None)"

definition parseTime :: "jsstring \<Rightarrow> jsnum option" where
  "parseTime timeStr =
     (if timeStr = [] then Some (Num 0)
      else (let cleanStr = replaceAll matchesNonDigitColon [] timeStr;
                parts = map Number_digits (splitChar colon cleanStr)
            in if length parts = 2
               then (case (parts ! 0, parts ! 1) of
                       (Some a, Some b) \<Rightarrow> Some (js_add (js_mul a 60) b)
                     | _ \<Rightarrow> None)
               else if length parts = 3
               then (case (parts ! 0, parts ! 1, parts ! 2) of
                       (Some a, Some b, Some c) \<Rightarrow>
                         Some (js_add (js_add (js_mul a 3600) (js_mul b 60)) c)
                     | _ \<Rightarrow> None)
               else Some (Num 0)))"

text \<open>
  The cleaned string in the words of the specification: every character other than
  digits and colons removed.
\<close>

definition spec_cleaned :: "jsstring \<Rightarrow> jsstring" where
  "spec_cleaned timeStr = filter (\<lambda>c. isDigit c \<or> c = colon) timeStr"

section \<open>The scenario of the specification\<close>

definition scenarioCaption :: caption where
  "scenarioCaption =
     \<lparr>startSeconds = 12, endSeconds = 16, captionText = js ''this is a test'',
      startStr = js ''00:12'', endStr = js ''00:16''\<rparr>"

definition nextCaption :: caption where
  "nextCaption =
     \<lparr>startSeconds = 16, endSeconds = 20, captionText = js ''of the captions'',
      startStr = js ''00:16'', endStr = js ''00:20''\<rparr>"

text \<open>A caption whose text carries extra white space between its two words.\<close>

definition gapCaption :: caption where
  "gapCaption =
     \<lparr>startSeconds = 0, endSeconds = 7, captionText = js ''hi   yo'',
      startStr = js ''00:00'', endStr = js ''00:07''\<rparr>"

definition scenarioClip :: clip where
  "scenarioClip =
     \<lparr>startSeconds = 10, endSeconds = 40, clipId = js ''clip-1'',
      title = js ''Top 5: best moments!'', startTime = js ''00:10'', endTime = js ''00:40'',
      description = js ''a clip'', viralScore = 8, captions = [scenarioCaption]\<rparr>"

text \<open>A clip of zero length.\<close>

definition zeroClip :: clip where
  "zeroClip = scenarioClip\<lparr>endSeconds := 10\<rparr>"

text \<open>
  Two neighbouring binary64 numbers inside the scenario clip, \<open>31.64453222749805\<close> and
  \<open>31.644532227498054\<close>.
\<close>

definition tickA :: real where
  "tickA = 8907143971754617 / 281474976710656"

definition tickB :: real where
  "tickB = 4453571985877309 / 140737488355328"

text \<open>A timestamp whose minutes are a run of 310 nines.\<close>

definition longTimestamp :: jsstring where
  "longTimestamp = replicate 310 0x39 @ js '':00''"

text \<open>A caption that starts just after the scenario clip ends, in a clip of its own.\<close>

definition lateCaption :: caption where
  "lateCaption =
     \<lparr>startSeconds = 40.05, endSeconds = 45, captionText = js ''after the end'',
      startStr = js ''00:40'', endStr = js ''00:45''\<rparr>"

definition lateClip :: clip where
  "lateClip = scenarioClip\<lparr>captions := [scenarioCaption, lateCaption]\<rparr>"

text \<open>A caption lying wholly after the scenario clip, listed first.\<close>

definition strayCaption :: caption where
  "strayCaption =
     \<lparr>startSeconds = 50, endSeconds = 55, captionText = js ''out of bounds'',
      startStr = js ''00:50'', endStr = js ''00:55''\<rparr>"

definition strayClip :: clip where
  "strayClip = scenarioClip\<lparr>captions := [strayCaption, scenarioCaption]\<rparr>"

text \<open>The component once a clip is selected, before anything is played.\<close>

definition mounted :: "clip \<Rightarrow> component" where
  "mounted c =
     \<lparr>videoRef = Some \<lparr>v_currentTime = startSeconds c, v_paused = True\<rparr>,
      canvasRef = True, activeClip = Some c, currentClipId = Some (clipId c),
      showCaptions = True, isPlaying = False, currentTime = Num 0, progress = Num 0,
      isExporting = False, exportProgress = Num 0, mediaRecorderRef = None,
      recordedChunksRef = [], exportPlayPending = False, effects = []\<rparr>"

definition chromium :: platform where
  "chromium = \<lparr>captureOk = True, hasAudioTrack = True, vp9Supported = True, playStarts = True\<rparr>"

text \<open>Two states in which the video has just passed the end of the scenario clip.\<close>

definition playingAtEnd :: component where
  "playingAtEnd =
     (mounted scenarioClip)\<lparr>videoRef := Some \<lparr>v_currentTime = 40.2, v_paused = False\<rparr>,
                             isPlaying := True\<rparr>"

definition exportingAtEnd :: component where
  "exportingAtEnd =
     (handleDownloadClip chromium (mounted scenarioClip))
       \<lparr>videoRef := Some \<lparr>v_currentTime = 40.2, v_paused = False\<rparr>\<rparr>"

section \<open>Properties of binary64 rounding\<close>

lemma rne_of_int: "rne (of_int n) = n"
  by (simp add: rne_def)

lemma rne_bounds: "\<lfloor>x\<rfloor> \<le> rne x \<and> rne x \<le> \<lfloor>x\<rfloor> + 1"
  by (simp add: rne_def Let_def)

lemma rne_mono: "x \<le> y \<Longrightarrow> rne x \<le> rne y"
proof -
  assume xy: "x \<le> y"
  then have fl: "\<lfloor>x\<rfloor> \<le> \<lfloor>y\<rfloor>" by (rule floor_mono)
  show ?thesis
  proof (cases "\<lfloor>x\<rfloor> = \<lfloor>y\<rfloor>")
    case True
    then have "x - of_int \<lfloor>x\<rfloor> \<le> y - of_int \<lfloor>y\<rfloor>" using xy by simp
    then show ?thesis using True by (auto simp: rne_def Let_def)
  next
    case False
    with fl have "\<lfloor>x\<rfloor> + 1 \<le> \<lfloor>y\<rfloor>" by simp
    then show ?thesis using rne_bounds [of x] rne_bounds [of y] by linarith
  qed
qed

lemma rne_ge: "of_int n \<le> x \<Longrightarrow> n \<le> rne x"
  using rne_mono [of "of_int n" x] by (simp add: rne_of_int)

lemma rne_le: "x \<le> of_int n \<Longrightarrow> rne x \<le> n"
  using rne_mono [of x "of_int n"] by (simp add: rne_of_int)

lemma expo_bounds:
  assumes "0 < x"
  shows "2 powi (expo x) \<le> x \<and> x < 2 powi (expo x + 1)"
proof (cases "1 \<le> x")
  case True
  let ?k = "\<lfloor>x\<rfloor>"
  have k: "0 < ?k" using True by simp
  from bitlen_bounds [OF k] have b: "2 ^ nat (bitlen ?k - 1) \<le> ?k" "?k < 2 ^ nat (bitlen ?k)"
    by simp_all
  have b1: "1 \<le> bitlen ?k" using k by (simp add: bitlen_alt_def)
  have e: "expo x = bitlen ?k - 1" using True by (simp add: expo_def)
  have "(2::real) powi (bitlen ?k - 1) = of_int (2 ^ nat (bitlen ?k - 1))"
    using b1 by (simp add: power_int_def)
  also have "\<dots> \<le> of_int ?k" using b(1) by (simp only: of_int_le_iff)
  also have "\<dots> \<le> x" by simp
  finally have lo: "2 powi (expo x) \<le> x" by (simp add: e)
  have "?k + 1 \<le> 2 ^ nat (bitlen ?k)" using b(2) by simp
  then have "of_int (?k + 1) \<le> (of_int (2 ^ nat (bitlen ?k)) :: real)" by (simp only: of_int_le_iff)
  then have up: "real_of_int ?k + 1 \<le> 2 ^ nat (bitlen ?k)" by simp
  have xk: "x < real_of_int ?k + 1" by linarith
  have "(2::real) powi (bitlen ?k - 1 + 1) = 2 ^ nat (bitlen ?k)"
    using b1 by (simp add: power_int_def)
  with up xk have hi: "x < 2 powi (expo x + 1)" unfolding e by linarith
  from lo hi show ?thesis by simp
next
  case False
  define y where "y = 1 / x"
  define c where "c = \<lceil>y\<rceil> - 1"
  have y: "1 < y" using False assms by (simp add: y_def)
  have cy: "real_of_int c < y" "y \<le> real_of_int c + 1" unfolding c_def by linarith+
  have c: "0 < c" using y cy(2) by linarith
  from bitlen_bounds [OF c] have b: "2 ^ nat (bitlen c - 1) \<le> c" "c + 1 \<le> 2 ^ nat (bitlen c)"
    by simp_all
  have b1: "1 \<le> bitlen c" using c by (simp add: bitlen_alt_def)
  define L where "L = (2::real) ^ nat (bitlen c - 1)"
  define U where "U = (2::real) ^ nat (bitlen c)"
  have "real_of_int (2 ^ nat (bitlen c - 1)) \<le> real_of_int c" using b(1) by (simp only: of_int_le_iff)
  then have Lc: "L \<le> real_of_int c" by (simp add: L_def)
  have "real_of_int (c + 1) \<le> real_of_int (2 ^ nat (bitlen c))" using b(2) by (simp only: of_int_le_iff)
  then have cU: "real_of_int c + 1 \<le> U" by (simp add: U_def)
  have L0: "0 < L" and U0: "0 < U" by (simp_all add: L_def U_def)
  have x: "x = 1 / y" using assms by (simp add: y_def)
  have Ly: "L < y" and yU: "y \<le> U" using Lc cy cU by linarith+
  have lo': "1 / U \<le> x" unfolding x using yU y U0 by (simp add: frac_le)
  have hi': "x < 1 / L" unfolding x using Ly L0 by (simp add: frac_less2)
  have e: "expo x = - bitlen c" using False by (simp add: expo_def c_def y_def)
  have pU: "(2::real) powi (- bitlen c) = 1 / U"
    using b1 by (simp add: power_int_def U_def field_simps)
  have pL: "(2::real) powi (- bitlen c + 1) = 1 / L"
  proof (cases "bitlen c = 1")
    case True
    then show ?thesis by (simp add: L_def)
  next
    case False
    with b1 have "- bitlen c + 1 < 0" by simp
    then show ?thesis by (simp add: power_int_def L_def field_simps nat_diff_distrib)
  qed
  from lo' hi' show ?thesis unfolding e pU pL by simp
qed

lemma pow2_less_imp: "(2::real) powi a < 2 powi b \<Longrightarrow> a < b"
  by (metis not_less one_le_numeral power_int_increasing)

lemma expo_unique:
  assumes "0 < x" "2 powi e \<le> x" "x < 2 powi (e + 1)"
  shows "expo x = e"
proof -
  from expo_bounds [OF assms(1)] have b: "2 powi (expo x) \<le> x" "x < 2 powi (expo x + 1)" by simp_all
  have "(2::real) powi e < 2 powi (expo x + 1)" using assms(2) b(2) by simp
  then have 1: "e < expo x + 1" by (rule pow2_less_imp)
  have "(2::real) powi (expo x) < 2 powi (e + 1)" using assms(3) b(1) by simp
  then have 2: "expo x < e + 1" by (rule pow2_less_imp)
  from 1 2 show ?thesis by simp
qed

lemma expo_mono:
  assumes "0 < x" "x \<le> y"
  shows "expo x \<le> expo y"
proof -
  have y: "0 < y" using assms by simp
  have "2 powi (expo x) \<le> x" using expo_bounds [OF assms(1)] by simp
  also have "x \<le> y" by fact
  also have "y < 2 powi (expo y + 1)" using expo_bounds [OF y] by simp
  finally have "expo x < expo y + 1" by (rule pow2_less_imp)
  then show ?thesis by simp
qed

lemma ulp_pos: "0 < ulp x"
  by (simp add: ulp_def)

lemma pow2_mono: "a \<le> b \<Longrightarrow> (2::real) powi a \<le> 2 powi b"
  by (simp add: power_int_increasing)

lemma pow2_diff: "(2::real) powi a / 2 powi b = 2 powi (a - b)"
  by (simp add: power_int_diff)

lemma roundMag_nonneg: "0 \<le> x \<Longrightarrow> 0 \<le> roundMag x"
proof -
  assume "0 \<le> x"
  then have "0 \<le> x / ulp x" using ulp_pos [of x] by simp
  then have "0 \<le> rne (x / ulp x)" using rne_ge [of 0 "x / ulp x"] by simp
  then show ?thesis using ulp_pos [of x] by (simp add: roundMag_def)
qed

lemma roundMag_exact: "x / ulp x = of_int k \<Longrightarrow> roundMag x = x"
proof -
  assume k: "x / ulp x = of_int k"
  have "roundMag x = (x / ulp x) * ulp x"
    unfolding roundMag_def k rne_of_int ..
  then show ?thesis using ulp_pos [of x] by simp
qed

lemma roundMag_ge_pow:
  assumes "0 < x" "- 1022 \<le> expo x"
  shows "2 powi (expo x) \<le> roundMag x"
proof -
  have u: "ulp x = 2 powi (expo x - 52)" using assms(2) by (simp add: ulp_def max_def)
  have "2 powi (expo x) / ulp x \<le> x / ulp x"
    using expo_bounds [OF assms(1)] ulp_pos [of x] by (simp add: divide_right_mono)
  moreover have "2 powi (expo x) / ulp x = real_of_int (2 ^ 52)"
    unfolding u pow2_diff by simp
  ultimately have "real_of_int (2 ^ 52) \<le> x / ulp x" by simp
  then have "2 ^ 52 \<le> rne (x / ulp x)" by (rule rne_ge)
  then have "real_of_int (2 ^ 52) \<le> real_of_int (rne (x / ulp x))" by (simp only: of_int_le_iff)
  then have "real_of_int (2 ^ 52) * ulp x \<le> roundMag x"
    unfolding roundMag_def using ulp_pos [of x] by (simp only: mult_right_mono less_imp_le)
  moreover have "real_of_int (2 ^ 52) * ulp x = 2 powi (expo x)"
    unfolding u by (simp add: power_int_diff)
  ultimately show ?thesis by simp
qed

lemma roundMag_le_pow:
  assumes "0 < x"
  shows "roundMag x \<le> 2 powi (max (expo x) (- 1022) + 1)"
proof -
  let ?E = "max (expo x) (- 1022)"
  have u: "ulp x = 2 powi (?E - 52)" by (simp add: ulp_def)
  have "x < 2 powi (expo x + 1)" using expo_bounds [OF assms] by simp
  also have "\<dots> \<le> 2 powi (?E + 1)" by (intro pow2_mono) simp
  finally have "x / ulp x \<le> 2 powi (?E + 1) / ulp x"
    using ulp_pos [of x] by (simp add: divide_right_mono)
  moreover have "2 powi (?E + 1) / ulp x = real_of_int (2 ^ 53)"
    unfolding u pow2_diff by simp
  ultimately have "x / ulp x \<le> real_of_int (2 ^ 53)" by simp
  then have "rne (x / ulp x) \<le> 2 ^ 53" by (rule rne_le)
  then have "real_of_int (rne (x / ulp x)) \<le> real_of_int (2 ^ 53)" by (simp only: of_int_le_iff)
  then have "roundMag x \<le> real_of_int (2 ^ 53) * ulp x"
    unfolding roundMag_def using ulp_pos [of x] by (simp only: mult_right_mono less_imp_le)
  moreover have "real_of_int (2 ^ 53) * ulp x = 2 powi (?E + 1)"
    unfolding u by (simp add: power_int_diff power_int_add)
  ultimately show ?thesis by simp
qed

lemma roundMag_mono:
  assumes "0 < x" "x \<le> y"
  shows "roundMag x \<le> roundMag y"
proof -
  have y: "0 < y" using assms by simp
  let ?Ex = "max (expo x) (- 1022)" and ?Ey = "max (expo y) (- 1022)"
  have E: "?Ex \<le> ?Ey" using expo_mono [OF assms] by simp
  show ?thesis
  proof (cases "?Ex = ?Ey")
    case True
    then have u: "ulp x = ulp y" by (simp add: ulp_def)
    have "x / ulp y \<le> y / ulp y" using assms(2) ulp_pos [of y] by (simp add: divide_right_mono)
    then have "rne (x / ulp y) \<le> rne (y / ulp y)" by (rule rne_mono)
    then have "real_of_int (rne (x / ulp y)) \<le> real_of_int (rne (y / ulp y))"
      by (simp only: of_int_le_iff)
    then show ?thesis unfolding roundMag_def u using ulp_pos [of y]
      by (simp only: mult_right_mono less_imp_le)
  next
    case False
    with E have lt: "?Ex + 1 \<le> ?Ey" by simp
    then have ey: "?Ey = expo y" "- 1022 \<le> expo y" by (simp_all add: max_def split: if_splits)
    have "roundMag x \<le> 2 powi (?Ex + 1)" by (rule roundMag_le_pow [OF assms(1)])
    also have "\<dots> \<le> 2 powi (expo y)" using lt ey(1) by (intro pow2_mono) simp
    also have "\<dots> \<le> roundMag y" by (rule roundMag_ge_pow [OF y ey(2)])
    finally show ?thesis .
  qed
qed

lemma overflowBound_eq: "overflowBound = 2 powi 1024"
  by (simp add: overflowBound_def)

lemma binary64_zero: "binary64 0 = Num 0"
  by (simp add: binary64_def)

lemma binary64_pos:
  "0 < x \<Longrightarrow> binary64 x = (if overflowBound \<le> roundMag x then PosInf else Num (roundMag x))"
  by (simp add: binary64_def Let_def)

lemma binary64_neg:
  "x < 0 \<Longrightarrow> binary64 x = (if overflowBound \<le> roundMag (- x) then NegInf else Num (- roundMag (- x)))"
  by (simp add: binary64_def Let_def)

lemma binary64_nonneg: "0 \<le> x \<Longrightarrow> js_le (Num 0) (binary64 x)"
  using roundMag_nonneg [of x] by (cases "x = 0") (simp_all add: binary64_zero binary64_pos)

lemma binary64_nonpos: "x \<le> 0 \<Longrightarrow> js_le (binary64 x) (Num 0)"
  using roundMag_nonneg [of "- x"] by (cases "x = 0") (simp_all add: binary64_zero binary64_neg)

lemma binary64_mono_nonneg:
  assumes "0 \<le> x" "x \<le> y"
  shows "js_le (binary64 x) (binary64 y)"
proof (cases "x = 0")
  case True
  then show ?thesis using binary64_nonneg [of y] assms by (simp add: binary64_zero)
next
  case False
  then have x: "0 < x" and y: "0 < y" using assms by simp_all
  from roundMag_mono [OF x assms(2)] show ?thesis
    by (simp add: binary64_pos x y)
qed

lemma binary64_overflow:
  assumes "overflowBound \<le> x"
  shows "binary64 x = PosInf"
proof -
  have x: "0 < x" using assms by (simp add: overflowBound_def) 
  have "(2::real) powi 1024 < 2 powi (expo x + 1)"
    using expo_bounds [OF x] assms by (simp add: overflowBound_eq)
  then have e: "1024 \<le> expo x" using pow2_less_imp [of 1024 "expo x + 1"] by simp
  have "overflowBound \<le> 2 powi (expo x)" unfolding overflowBound_eq using e by (rule pow2_mono)
  also have "\<dots> \<le> roundMag x" using x e by (intro roundMag_ge_pow) simp_all
  finally show ?thesis by (simp add: binary64_pos x)
qed

lemma js_nonneg_cases: "js_le (Num 0) x \<Longrightarrow> (\<exists>r. x = Num r \<and> 0 \<le> r) \<or> x = PosInf"
  by (cases x) simp_all

lemma js_nonpos_cases: "js_le x (Num 0) \<Longrightarrow> (\<exists>r. x = Num r \<and> r \<le> 0) \<or> x = NegInf"
  by (cases x) simp_all

lemma js_le_trans: "js_le x y \<Longrightarrow> js_le y z \<Longrightarrow> js_le x z"
  by (cases x; cases y; cases z) simp_all

lemma js_le_refl_nonneg: "js_le (Num 0) x \<Longrightarrow> js_le x x"
  by (cases x) simp_all

lemma binary64_nat_exact:
  assumes "n < 2 ^ 53"
  shows "binary64 (real n) = Num (real n)"
proof (cases "n = 0")
  case True
  then show ?thesis by (simp add: binary64_zero)
next
  case False
  let ?x = "real n"
  have x: "0 < ?x" "1 \<le> ?x" using False by simp_all
  from expo_bounds [OF x(1)] have b: "2 powi (expo ?x) \<le> ?x" "?x < 2 powi (expo ?x + 1)" by simp_all
  have "(2::real) powi 0 < 2 powi (expo ?x + 1)" using x(2) b(2) by simp
  then have e0: "0 \<le> expo ?x" using pow2_less_imp [of 0 "expo ?x + 1"] by simp
  have "?x < 2 powi 53" using assms by (simp add: of_nat_less_iff [of n "2 ^ 53", where ?'a = real, simplified])
  with b(1) have "(2::real) powi (expo ?x) < 2 powi 53" by simp
  then have e52: "expo ?x \<le> 52" using pow2_less_imp [of "expo ?x" 53] by simp
  have u: "ulp ?x = 2 powi (expo ?x - 52)" using e0 by (simp add: ulp_def max_def)
  have "?x / ulp ?x = ?x * 2 powi (52 - expo ?x)"
    unfolding u by (simp add: power_int_diff)
  also have "\<dots> = real_of_int (int n * 2 ^ nat (52 - expo ?x))"
    using e52 by (simp add: power_int_def)
  finally have r: "roundMag ?x = ?x" by (rule roundMag_exact)
  have "?x < overflowBound" using \<open>?x < 2 powi 53\<close> by (simp add: overflowBound_def)
  then show ?thesis using x(1) by (simp add: binary64_pos r)
qed

lemma roundMag_multiple:
  assumes "0 < x"
  shows "\<exists>k::int. 0 \<le> k \<and> roundMag x = of_int k * minSubnormal"
proof -
  let ?E = "max (expo x) (- 1022)"
  have "ulp x = 2 powi (?E + 1022 + (- 1074))" by (simp add: ulp_def)
  also have "\<dots> = 2 powi (?E + 1022) * minSubnormal"
    unfolding minSubnormal_def by (subst power_int_add) simp_all
  also have "2 powi (?E + 1022) = real_of_int (2 ^ nat (?E + 1022))"
    by (simp add: power_int_def)
  finally have u: "ulp x = real_of_int (2 ^ nat (?E + 1022)) * minSubnormal" .
  have k0: "0 \<le> rne (x / ulp x)"
    using rne_ge [of 0 "x / ulp x"] assms ulp_pos [of x] by simp
  have "roundMag x = real_of_int (rne (x / ulp x) * 2 ^ nat (?E + 1022)) * minSubnormal"
    unfolding roundMag_def by (subst (2) u) simp
  moreover have "0 \<le> rne (x / ulp x) * 2 ^ nat (?E + 1022)" using k0 by simp
  ultimately show ?thesis by blast
qed

lemma isDouble_multiple:
  assumes "isDouble x"
  shows "\<exists>k::int. x = of_int k * minSubnormal"
proof -
  consider "x = 0" | "0 < x" | "x < 0" by linarith
  then show ?thesis
  proof cases
    case 1
    then show ?thesis by (intro exI [of _ 0]) simp
  next
    case 2
    with assms have "roundMag x = x"
      by (simp add: isDouble_def binary64_pos split: if_splits)
    with roundMag_multiple [OF 2] show ?thesis by metis
  next
    case 3
    with assms have "roundMag (- x) = - x"
      by (simp add: isDouble_def binary64_neg split: if_splits)
    moreover from 3 have "0 < - x" by simp
    from roundMag_multiple [OF this] obtain k :: int where "roundMag (- x) = of_int k * minSubnormal"
      by blast
    ultimately have "x = of_int (- k) * minSubnormal" by simp
    then show ?thesis by blast
  qed
qed

lemma roundMag_minSubnormal: "roundMag minSubnormal = minSubnormal"
proof -
  have m: "0 < minSubnormal" by (simp add: minSubnormal_def)
  have "expo minSubnormal = - 1074"
    by (rule expo_unique [OF m]) (simp_all add: minSubnormal_def power_int_strict_increasing)
  then have "ulp minSubnormal = minSubnormal" by (simp add: ulp_def minSubnormal_def)
  then have "minSubnormal / ulp minSubnormal = of_int 1" using m by simp
  then show ?thesis by (rule roundMag_exact)
qed

lemma double_diff_pos:
  assumes "isDouble a" "isDouble b" "a < b"
  shows "minSubnormal \<le> roundMag (b - a)"
proof -
  from isDouble_multiple [OF assms(1)] obtain ka :: int where ka: "a = of_int ka * minSubnormal" by blast
  from isDouble_multiple [OF assms(2)] obtain kb :: int where kb: "b = of_int kb * minSubnormal" by blast
  have m: "0 < minSubnormal" by (simp add: minSubnormal_def)
  have "real_of_int ka * minSubnormal < real_of_int kb * minSubnormal" using assms(3) ka kb by simp
  then have "real_of_int ka < real_of_int kb" using m by (simp only: mult_less_cancel_right_pos)
  then have "ka + 1 \<le> kb" by simp
  then have "real_of_int (ka + 1) \<le> real_of_int kb" by (simp only: of_int_le_iff)
  then have "real_of_int (ka + 1) * minSubnormal \<le> real_of_int kb * minSubnormal"
    using m by (simp only: mult_right_mono less_imp_le)
  then have "minSubnormal \<le> b - a" unfolding ka kb by (simp add: algebra_simps)
  from roundMag_mono [OF m this] show ?thesis by (simp add: roundMag_minSubnormal)
qed

lemma binary64_le_double:
  assumes "0 \<le> x" "x \<le> y" "isDouble y"
  shows "\<exists>r. binary64 x = Num r \<and> 0 \<le> r \<and> r \<le> y"
proof -
  have "js_le (binary64 x) (Num y)"
    using binary64_mono_nonneg [OF assms(1,2)] assms(3) by (simp add: isDouble_def)
  moreover have "js_le (Num 0) (binary64 x)" by (rule binary64_nonneg [OF assms(1)])
  ultimately show ?thesis by (cases "binary64 x") simp_all
qed

section \<open>Properties of the caption lookup and the word loop\<close>

lemma findIndex_from_find:
  "findIndex_from p xs i =
     (case find p xs of None \<Rightarrow> -1 | Some x \<Rightarrow> i + int (length (takeWhile (\<lambda>y. \<not> p y) xs)))"
  by (induction xs arbitrary: i) (auto split: option.splits)

lemma find_takeWhile_nth:
  "find p xs = Some x \<Longrightarrow>
     length (takeWhile (\<lambda>y. \<not> p y) xs) < length xs \<and> xs ! length (takeWhile (\<lambda>y. \<not> p y) xs) = x"
  by (induction xs) (auto split: if_splits)

lemma resolveCaption_find:
  "resolveCaption cs t = Inr (find (captionActive t) cs)"
proof (cases "find (captionActive t) cs")
  case None
  then show ?thesis
    by (simp add: resolveCaption_def findIndex_def findIndex_from_find)
next
  case (Some c)
  from find_takeWhile_nth [OF Some] show ?thesis
    using Some
    by (simp add: resolveCaption_def findIndex_def findIndex_from_find js_index_def Let_def)
qed

lemma wordLoop_Cons:
  "wordLoop tp cd (w # ws) i acc =
     (if real acc * cd \<le> tp \<and> tp < real (acc + (length w + 1)) * cd then int i
      else wordLoop tp cd ws (i + 1) (acc + (length w + 1)))"
  by (simp only: wordLoop.simps Let_def)

declare wordLoop.simps(2) [simp del]

lemma wordLoop_hit:
  "real acc * cd \<le> tp \<and> tp < real (acc + (length w + 1)) * cd \<Longrightarrow>
     wordLoop tp cd (w # ws) i acc = int i"
  by (subst wordLoop_Cons) simp

lemma wordLoop_miss:
  "\<not> (real acc * cd \<le> tp \<and> tp < real (acc + (length w + 1)) * cd) \<Longrightarrow>
     wordLoop tp cd (w # ws) i acc = wordLoop tp cd ws (i + 1) (acc + (length w + 1))"
  by (subst wordLoop_Cons) (simp only: if_False)

lemma wordLoop_found:
  "wordLoop tp cd ws i acc = k \<Longrightarrow> k \<noteq> -1 \<Longrightarrow> 0 \<le> cd \<Longrightarrow>
     real acc * cd \<le> tp \<and> tp < real (acc + wordChars ws) * cd \<and> int i \<le> k \<and> k < int (i + length ws)"
proof (induction ws arbitrary: i acc)
  case Nil
  then show ?case by simp
next
  case (Cons w ws)
  show ?case
  proof (cases "real acc * cd \<le> tp \<and> tp < real (acc + (length w + 1)) * cd")
    case True
    with Cons.prems(1) have k: "k = int i" using wordLoop_hit [OF True] by simp
    have "real (acc + (length w + 1)) * cd \<le> real (acc + wordChars (w # ws)) * cd"
      using Cons.prems(3) by (intro mult_right_mono) (simp_all add: wordChars_def)
    with True k show ?thesis by simp
  next
    case False
    with Cons.prems(1) have rec: "wordLoop tp cd ws (i + 1) (acc + (length w + 1)) = k"
      using wordLoop_miss [OF False] by simp
    from Cons.IH [OF rec Cons.prems(2,3)]
    have ih: "real (acc + (length w + 1)) * cd \<le> tp"
      "tp < real (acc + (length w + 1) + wordChars ws) * cd"
      "int (i + 1) \<le> k" "k < int (i + 1 + length ws)" by simp_all
    have "real acc * cd \<le> real (acc + (length w + 1)) * cd"
      using Cons.prems(3) by (intro mult_right_mono) simp_all
    with ih show ?thesis by (simp add: wordChars_def add.assoc)
  qed
qed

lemma wordLoop_none:
  "wordLoop tp cd ws i acc = -1 \<Longrightarrow> real acc * cd \<le> tp \<Longrightarrow>
     real (acc + wordChars ws) * cd \<le> tp"
proof (induction ws arbitrary: i acc)
  case Nil
  then show ?case by (simp add: wordChars_def)
next
  case (Cons w ws)
  have nofirst: "\<not> (real acc * cd \<le> tp \<and> tp < real (acc + (length w + 1)) * cd)"
    using Cons.prems(1) wordLoop_hit [of acc cd tp w ws i] by fastforce
  with Cons.prems(1) have rec: "wordLoop tp cd ws (i + 1) (acc + (length w + 1)) = -1"
    using wordLoop_miss [OF nofirst] by simp
  from nofirst Cons.prems(2) have "real (acc + (length w + 1)) * cd \<le> tp" by simp
  from Cons.IH [OF rec this] show ?case by (simp add: wordChars_def add.assoc)
qed

lemma wordLoop_mono:
  "0 \<le> cd \<Longrightarrow> tp1 \<le> tp2 \<Longrightarrow> wordLoop tp1 cd ws i acc \<noteq> -1 \<Longrightarrow>
     wordLoop tp2 cd ws i acc \<noteq> -1 \<Longrightarrow> wordLoop tp1 cd ws i acc \<le> wordLoop tp2 cd ws i acc"
proof (induction ws arbitrary: i acc)
  case Nil
  then show ?case by simp
next
  case (Cons w ws)
  show ?case
  proof (cases "real acc * cd \<le> tp1 \<and> tp1 < real (acc + (length w + 1)) * cd")
    case True
    then have "wordLoop tp1 cd (w # ws) i acc = int i" by (rule wordLoop_hit)
    moreover have "int i \<le> wordLoop tp2 cd (w # ws) i acc"
      using wordLoop_found [OF refl Cons.prems(4) Cons.prems(1)] by simp
    ultimately show ?thesis by simp
  next
    case False
    then have r1: "wordLoop tp1 cd (w # ws) i acc = wordLoop tp1 cd ws (i + 1) (acc + (length w + 1))"
      by (rule wordLoop_miss)
    with Cons.prems(3) have n1: "wordLoop tp1 cd ws (i + 1) (acc + (length w + 1)) \<noteq> -1" by simp
    from wordLoop_found [OF refl n1 Cons.prems(1)]
    have "real (acc + (length w + 1)) * cd \<le> tp1" by simp
    with Cons.prems(2) have "\<not> (real acc * cd \<le> tp2 \<and> tp2 < real (acc + (length w + 1)) * cd)" by simp
    then have r2: "wordLoop tp2 cd (w # ws) i acc = wordLoop tp2 cd ws (i + 1) (acc + (length w + 1))"
      by (rule wordLoop_miss)
    with Cons.prems(4) have n2: "wordLoop tp2 cd ws (i + 1) (acc + (length w + 1)) \<noteq> -1" by simp
    from Cons.IH [OF Cons.prems(1,2) n1 n2] r1 r2 show ?thesis by simp
  qed
qed

lemma split_ws_nonempty: "split_ws s \<noteq> []"
  by (subst split_ws.simps) (simp add: Let_def)




text \<open>
  Claim C8. Within one caption the highlighted word never moves backwards: for times
  \<open>t1 \<le> t2\<close> in the caption's window, if a word is highlighted at \<open>t2\<close> then the index
  at \<open>t1\<close> is not larger than the index at \<open>t2\<close>, the last-word fallback included.
\<close>

theorem activeWordIndex_mono:
  assumes "startSeconds c \<le> t1" "t1 \<le> t2" "t2 \<le> endSeconds c"
    and sel: "activeWordIndex c t2 \<noteq> -1"
  shows "activeWordIndex c t1 \<le> activeWordIndex c t2"
proof -
  let ?ws = "captionWords c"
  let ?D = "endSeconds c - startSeconds c"
  let ?cd = "?D / real (max 1 (length (captionText c)))"
  let ?l1 = "wordLoop (t1 - startSeconds c) ?cd ?ws 0 0"
  let ?l2 = "wordLoop (t2 - startSeconds c) ?cd ?ws 0 0"
  have D: "0 \<le> ?D" using assms by simp
  then have cd: "0 \<le> ?cd" by simp
  have a1: "activeWordIndex c t1 =
      (if ?l1 = -1 \<and> t1 - startSeconds c \<ge> ?D * 0.9 then int (length ?ws) - 1 else ?l1)"
    by (simp add: activeWordIndex_def Let_def)
  have a2: "activeWordIndex c t2 =
      (if ?l2 = -1 \<and> t2 - startSeconds c \<ge> ?D * 0.9 then int (length ?ws) - 1 else ?l2)"
    by (simp add: activeWordIndex_def Let_def)
  have bound: "l \<noteq> -1 \<Longrightarrow> wordLoop tp ?cd ?ws 0 0 = l \<Longrightarrow> l \<le> int (length ?ws) - 1" for l tp
    using wordLoop_found [of tp ?cd ?ws 0 0 l] cd by simp
  show ?thesis
  proof (cases "?l2 = -1")
    case True
    with sel a2 have i2: "activeWordIndex c t2 = int (length ?ws) - 1"
      by (simp split: if_splits)
    have "activeWordIndex c t1 \<le> int (length ?ws) - 1"
    proof (cases "?l1 = -1")
      case True
      then show ?thesis unfolding a1 using split_ws_nonempty [of "trim (captionText c)"]
        by (simp add: captionWords_def)
    next
      case False
      from bound [OF False refl] show ?thesis unfolding a1 using False by simp
    qed
    with i2 show ?thesis by simp
  next
    case False
    then have i2: "activeWordIndex c t2 = ?l2" unfolding a2 by simp
    show ?thesis
    proof (cases "?l1 = -1")
      case True
      have "real (0 + wordChars ?ws) * ?cd \<le> t1 - startSeconds c"
        using wordLoop_none [OF True] assms(1) by simp
      moreover have "t2 - startSeconds c < real (0 + wordChars ?ws) * ?cd"
        using wordLoop_found [OF refl False cd] by simp
      ultimately show ?thesis using assms(2) by simp
    next
      case l1: False
      then have i1: "activeWordIndex c t1 = ?l1" unfolding a1 by simp
      have "t1 - startSeconds c \<le> t2 - startSeconds c" using assms(2) by simp
      from wordLoop_mono [OF cd this l1 False] show ?thesis unfolding i1 i2 .
    qed
  qed
qed

theorem activeWordIndex_mono_witness:
  "startSeconds scenarioCaption \<le> 12 \<and> (12::real) \<le> 15.9 \<and> 15.9 \<le> endSeconds scenarioCaption \<and>
   activeWordIndex scenarioCaption 15.9 \<noteq> -1 \<and>
   activeWordIndex scenarioCaption 12 \<le> activeWordIndex scenarioCaption 15.9"
proof -
  have sel: "activeWordIndex scenarioCaption 15.9 \<noteq> -1" by code_simp
  have b: "startSeconds scenarioCaption \<le> 12" "(12::real) \<le> 15.9" "15.9 \<le> endSeconds scenarioCaption"
    by (simp_all add: scenarioCaption_def)
  from activeWordIndex_mono [OF b sel] sel b show ?thesis by simp
qed

text \<open>
  With extra white space in the text the windows of the words end before \<open>0.9 * D\<close>, and
  in between no word is highlighted (index \<open>-1\<close>) before the fallback sets in.
\<close>

lemma activeWordIndex_gap:
  "activeWordIndex gapCaption 5 = 1 \<and> activeWordIndex gapCaption 6.1 = -1 \<and>
   activeWordIndex gapCaption 6.5 = 1"
  by code_simp


text \<open>
  Claim C2, as stated, fails: the lookup tests the closed window
  \<open>startSeconds \<le> t \<le> endSeconds\<close>. At \<open>t = 16\<close> the time lies in the half-open window
  of the second caption only, yet the first caption is returned; and with the first
  caption alone, \<open>t = 16\<close> lies outside every half-open window, yet a caption is returned.
\<close>

theorem resolveCaption_halfopen_counterexample:
  "spec_captionWindow nextCaption 16 \<and> \<not> spec_captionWindow scenarioCaption 16 \<and>
   resolveCaption [scenarioCaption, nextCaption] 16 = Inr (Some scenarioCaption) \<and>
   scenarioCaption \<noteq> nextCaption \<and>
   resolveCaption [scenarioCaption] 16 \<noteq> Inr None"
  by (simp add: resolveCaption_find captionActive_def spec_captionWindow_def
      scenarioCaption_def nextCaption_def)

text \<open>
  Claim C2, amended. The lookup returns the first caption, in list order, whose closed
  window \<open>[startSeconds, endSeconds]\<close> contains \<open>t\<close>, and none when \<open>t\<close> lies outside
  every caption's closed window; whatever it returns has \<open>t\<close> in its closed window. For
  the scenario caption the lookup returns none at \<open>t = 16.1\<close>.
\<close>

theorem resolveCaption_closed_window:
  "((\<forall>c \<in> set cs. \<not> captionActive t c) \<longrightarrow> resolveCaption cs t = Inr None) \<and>
   ((\<forall>c' \<in> set pre. \<not> captionActive u c') \<and> captionActive u c \<longrightarrow>
      resolveCaption (pre @ c # post) u = Inr (Some c)) \<and>
   (resolveCaption cs t = Inr None \<or> (\<exists>c \<in> set cs. resolveCaption cs t = Inr (Some c) \<and>
      startSeconds c \<le> t \<and> t \<le> endSeconds c)) \<and>
   resolveCaption [scenarioCaption] 16.1 = Inr None"
proof (intro conjI impI)
  assume "\<forall>c \<in> set cs. \<not> captionActive t c"
  then have "find (captionActive t) cs = None" by (simp add: find_None_iff)
  then show "resolveCaption cs t = Inr None" by (simp add: resolveCaption_find)
next
  assume a: "(\<forall>c' \<in> set pre. \<not> captionActive u c') \<and> captionActive u c"
  then have "find (captionActive u) (pre @ c # post) = Some c"
    by (induction pre) auto
  then show "resolveCaption (pre @ c # post) u = Inr (Some c)" by (simp add: resolveCaption_find)
next
  show "resolveCaption cs t = Inr None \<or> (\<exists>c \<in> set cs. resolveCaption cs t = Inr (Some c) \<and>
      startSeconds c \<le> t \<and> t \<le> endSeconds c)"
  proof (cases "find (captionActive t) cs")
    case None
    then show ?thesis by (simp add: resolveCaption_find)
  next
    case (Some c)
    then have "c \<in> set cs" "captionActive t c"
      by (auto simp: find_Some_iff)
    with Some show ?thesis by (auto simp: resolveCaption_find captionActive_def)
  qed
next
  show "resolveCaption [scenarioCaption] 16.1 = Inr None"
    by (simp add: resolveCaption_find captionActive_def scenarioCaption_def)
qed

theorem resolveCaption_closed_window_witness:
  "resolveCaption [scenarioCaption, nextCaption] 21 = Inr None \<and>
   resolveCaption [scenarioCaption, nextCaption] 16 = Inr (Some scenarioCaption) \<and>
   resolveCaption [scenarioCaption, nextCaption] 18 = Inr (Some nextCaption)"
  using resolveCaption_closed_window [of "[scenarioCaption, nextCaption]" 21 "[]" 16 scenarioCaption "[nextCaption]"]
    resolveCaption_closed_window [of "[]" 0 "[scenarioCaption]" 18 nextCaption "[]"]
  by (simp add: captionActive_def scenarioCaption_def nextCaption_def)

section \<open>Properties of the time-update handler\<close>

lemma handleTimeUpdate_progress:
  "videoRef s = Some v \<Longrightarrow> activeClip s = Some c \<Longrightarrow>
     progress (handleTimeUpdate s) =
       js_mul (js_div (js_max0 (binary64 (v_currentTime v - startSeconds c)))
                 (binary64 (endSeconds c - startSeconds c))) 100"
  by (simp add: handleTimeUpdate_def finishExport_def Let_def split: option.splits)

lemma tick_progress:
  "videoRef s = Some v \<Longrightarrow> activeClip s = Some c \<Longrightarrow>
     progress (step (TimeUpdate t) s) =
       js_mul (js_div (js_max0 (binary64 (t - startSeconds c)))
                 (binary64 (endSeconds c - startSeconds c))) 100"
  by (simp add: handleTimeUpdate_progress)

lemma resolveCaption_total: "\<exists>r. resolveCaption cs t = Inr r"
  by (simp add: resolveCaption_find)

lemma render_captions_total: "\<exists>ov. render_captions sc ac t = Inr ov"
  by (auto simp: render_captions_def resolveCaption_find split: option.splits)

lemma js_max0_nonneg_id: "js_le (Num 0) x \<Longrightarrow> js_max0 x = x"
  by (cases x) (simp_all add: max_def)

lemma js_max0_nonpos: "js_le x (Num 0) \<Longrightarrow> js_max0 x = Num 0"
  by (cases x) (simp_all add: max_def)

lemma relTime_nonneg: "js_le (Num 0) (js_max0 (binary64 x))"
proof (cases "0 \<le> x")
  case True
  then show ?thesis using binary64_nonneg [of x] by (simp add: js_max0_nonneg_id)
next
  case False
  then show ?thesis using binary64_nonpos [of x] by (simp add: js_max0_nonpos)
qed

lemma relTime_mono: "x \<le> y \<Longrightarrow> js_le (js_max0 (binary64 x)) (js_max0 (binary64 y))"
proof (cases "0 \<le> x")
  case True
  assume "x \<le> y"
  with True show ?thesis
    using binary64_mono_nonneg [of x y] binary64_nonneg [of x] binary64_nonneg [of y]
    by (simp add: js_max0_nonneg_id)
next
  case False
  then have "js_max0 (binary64 x) = Num 0" using binary64_nonpos [of x] by (simp add: js_max0_nonpos)
  then show ?thesis using relTime_nonneg [of y] by simp
qed

lemma percent_nonneg:
  assumes "0 < D" "js_le (Num 0) x"
  shows "js_le (Num 0) (js_mul (js_div x (Num D)) 100)"
proof -
  have q: "js_le (Num 0) (js_div x (Num D))"
    using assms binary64_nonneg by (cases x) simp_all
  then show ?thesis
    using binary64_nonneg by (cases "js_div x (Num D)") simp_all
qed

lemma ratio_mono:
  assumes "0 < D" "js_le (Num 0) x" "js_le x y"
  shows "js_le (Num 0) (js_div x (Num D)) \<and> js_le (js_div x (Num D)) (js_div y (Num D))"
proof -
  have y: "js_le (Num 0) y" using assms(2,3) by (rule js_le_trans)
  from js_nonneg_cases [OF assms(2)] js_nonneg_cases [OF y] show ?thesis
  proof (elim disjE exE conjE)
    fix r r' assume h: "x = Num r" "0 \<le> r" "y = Num r'" "0 \<le> r'"
    with assms(3) have "r / D \<le> r' / D" using assms(1) by (simp add: divide_right_mono)
    moreover have "0 \<le> r / D" using h(2) assms(1) by simp
    ultimately show ?thesis using h assms(1) binary64_mono_nonneg [of "r / D" "r' / D"]
        binary64_nonneg [of "r / D"] by simp
  next
    fix r assume h: "x = Num r" "0 \<le> r" "y = PosInf"
    have "0 \<le> r / D" using h(2) assms(1) by simp
    from binary64_nonneg [OF this] show ?thesis using h assms(1)
      by (cases "binary64 (r / D)") simp_all
  next
    fix r' assume "x = PosInf" "y = Num r'"
    with assms(3) show ?thesis by simp
  next
    assume "x = PosInf" "y = PosInf"
    then show ?thesis using assms(1) by simp
  qed
qed

lemma times_mono:
  assumes "js_le (Num 0) x" "js_le x y"
  shows "js_le (js_mul x 100) (js_mul y 100)"
proof -
  have y: "js_le (Num 0) y" using assms by (rule js_le_trans)
  from js_nonneg_cases [OF assms(1)] js_nonneg_cases [OF y] show ?thesis
  proof (elim disjE exE conjE)
    fix r r' assume h: "x = Num r" "0 \<le> r" "y = Num r'" "0 \<le> r'"
    with assms(2) show ?thesis using binary64_mono_nonneg [of "r * 100" "r' * 100"] by simp
  next
    fix r assume h: "x = Num r" "0 \<le> r" "y = PosInf"
    have "0 \<le> r * 100" using h(2) by simp
    from binary64_nonneg [OF this] show ?thesis using h
      by (cases "binary64 (r * 100)") simp_all
  next
    fix r' assume "x = PosInf" "y = Num r'"
    with assms(2) show ?thesis by simp
  next
    assume "x = PosInf" "y = PosInf"
    then show ?thesis by simp
  qed
qed

lemma percent_mono:
  assumes "0 < D" "js_le (Num 0) x" "js_le x y"
  shows "js_le (js_mul (js_div x (Num D)) 100) (js_mul (js_div y (Num D)) 100)"
  using ratio_mono [OF assms] by (intro times_mono) simp_all

lemma duration_pos:
  assumes "isDouble S" "isDouble E" "0 \<le> S" "S < E"
  shows "\<exists>D. binary64 (E - S) = Num D \<and> 0 < D"
proof -
  have "\<exists>r. binary64 (E - S) = Num r \<and> 0 \<le> r \<and> r \<le> E"
    using assms by (intro binary64_le_double) simp_all
  then obtain r where r: "binary64 (E - S) = Num r" by blast
  have "0 < E - S" using assms(4) by simp
  from binary64_pos [OF this] r have "r = roundMag (E - S)" by (simp split: if_splits)
  moreover have "0 < minSubnormal" by (simp add: minSubnormal_def)
  ultimately have "0 < r" using double_diff_pos [OF assms(1,2,4)] by simp
  with r show ?thesis by blast
qed

lemma binary64_one: "binary64 1 = Num 1"
  using binary64_nat_exact [of 1] by simp

lemma binary64_hundred: "binary64 100 = Num 100"
  using binary64_nat_exact [of 100] by simp

text \<open>
  Claim C4, as stated, fails twice. Nothing clamps the ratio from above: for the
  scenario clip a tick at \<open>t = 41\<close> stores \<open>103.33333333333334\<close> percent, where the
  clamped ratio gives 100. And the progress is not strictly increasing: the two
  neighbouring binary64 positions \<open>tickA < tickB\<close> inside the clip store the same value.
\<close>

theorem progress_clamp_counterexample:
  "progress (step (TimeUpdate 41) (mounted scenarioClip)) = Num (3635718449179307 / 35184372088832) \<and>
   (100 :: real) < 3635718449179307 / 35184372088832 \<and>
   spec_progressRatio scenarioClip 41 * 100 = 100 \<and>
   isDouble tickA \<and> isDouble tickB \<and>
   startSeconds scenarioClip < tickA \<and> tickA < tickB \<and> tickB < endSeconds scenarioClip \<and>
   progress (step (TimeUpdate tickA) (mounted scenarioClip)) =
     progress (step (TimeUpdate tickB) (mounted scenarioClip))"
  by code_simp

text \<open>
  Claim C4, amended. For a clip whose bounds are binary64 numbers with
  \<open>0 \<le> startSeconds < endSeconds\<close>, the progress stored by a tick at time \<open>t\<close> is
  \<open>max(0, t - startSeconds) / (endSeconds - startSeconds) * 100\<close> in double-precision
  arithmetic: clamped below at 0 and not above. It is never negative and never \<open>NaN\<close>,
  0 up to \<open>startSeconds\<close>, 100 at \<open>endSeconds\<close>, non-decreasing in \<open>t\<close>, at most 100 for
  \<open>t \<le> endSeconds\<close> and at least 100 for \<open>t \<ge> endSeconds\<close>.
\<close>

theorem progress_ratio:
  assumes "videoRef s = Some v" "activeClip s = Some c"
    and "isDouble (startSeconds c)" "isDouble (endSeconds c)"
    and "0 \<le> startSeconds c" "startSeconds c < endSeconds c"
  shows "progress (step (TimeUpdate t) s) =
           js_mul (js_div (js_max0 (binary64 (t - startSeconds c)))
                     (binary64 (endSeconds c - startSeconds c))) 100 \<and>
         js_le (Num 0) (progress (step (TimeUpdate t) s)) \<and>
         (t \<le> startSeconds c \<longrightarrow> progress (step (TimeUpdate t) s) = Num 0) \<and>
         (t = endSeconds c \<longrightarrow> progress (step (TimeUpdate t) s) = Num 100) \<and>
         (t \<le> endSeconds c \<longrightarrow> js_le (progress (step (TimeUpdate t) s)) (Num 100)) \<and>
         (endSeconds c \<le> t \<longrightarrow> js_le (Num 100) (progress (step (TimeUpdate t) s))) \<and>
         (t \<le> t' \<longrightarrow>
            js_le (progress (step (TimeUpdate t) s)) (progress (step (TimeUpdate t') s)))"
proof -
  let ?S = "startSeconds c" and ?E = "endSeconds c"
  let ?a = "\<lambda>u. js_max0 (binary64 (u - ?S))"
  from duration_pos [OF assms(3-6)] obtain D where D: "binary64 (?E - ?S) = Num D" "0 < D"
    by blast
  let ?P = "\<lambda>u. js_mul (js_div (?a u) (Num D)) 100"
  have p: "progress (step (TimeUpdate u) s) = ?P u" for u
    unfolding tick_progress [OF assms(1,2)] D(1) ..
  have nonneg: "js_le (Num 0) (?P u)" for u
    by (rule percent_nonneg [OF D(2) relTime_nonneg])
  have mono: "js_le (?P u) (?P u')" if "u \<le> u'" for u u'
    using that by (intro percent_mono [OF D(2) relTime_nonneg] relTime_mono) simp
  have at_start: "?P u = Num 0" if "u \<le> ?S" for u
  proof -
    have "?a u = Num 0" using that binary64_nonpos [of "u - ?S"] by (simp add: js_max0_nonpos)
    then show ?thesis using D(2) by (simp add: binary64_zero)
  qed
  have at_end: "?P ?E = Num 100"
  proof -
    have "?a ?E = Num D" using D by (simp add: max_def)
    then show ?thesis using D(2) by (simp add: binary64_one binary64_hundred)
  qed
  have le100: "js_le (?P t) (Num 100)" if "t \<le> ?E"
    using mono [OF that] at_end by simp
  have ge100: "js_le (Num 100) (?P t)" if "?E \<le> t"
    using mono [OF that] at_end by simp
  have 1: "progress (step (TimeUpdate t) s) =
           js_mul (js_div (js_max0 (binary64 (t - ?S))) (binary64 (?E - ?S))) 100"
    by (rule tick_progress [OF assms(1,2)])
  show ?thesis
    unfolding p using 1 [unfolded p] nonneg [of t] mono [of t t'] at_start [of t] at_end le100 ge100
    by blast
qed

theorem progress_ratio_witness:
  "progress (step (TimeUpdate 25) (mounted scenarioClip)) = Num 50 \<and>
   progress (step (TimeUpdate 10) (mounted scenarioClip)) = Num 0 \<and>
   progress (step (TimeUpdate 40) (mounted scenarioClip)) = Num 100 \<and>
   js_le (progress (step (TimeUpdate 25) (mounted scenarioClip)))
         (progress (step (TimeUpdate 41) (mounted scenarioClip)))"
proof -
  have h: "videoRef (mounted scenarioClip) = Some \<lparr>v_currentTime = 10, v_paused = True\<rparr>"
    "activeClip (mounted scenarioClip) = Some scenarioClip"
    by (simp_all add: mounted_def scenarioClip_def)
  have d: "isDouble (startSeconds scenarioClip)" "isDouble (endSeconds scenarioClip)"
    "0 \<le> startSeconds scenarioClip" "startSeconds scenarioClip < endSeconds scenarioClip"
    by code_simp+
  have v: "progress (step (TimeUpdate 25) (mounted scenarioClip)) = Num 50"
    by code_simp
  have se: "startSeconds scenarioClip = 10" "endSeconds scenarioClip = 40"
    by (simp_all add: scenarioClip_def)
  have "10 \<le> startSeconds scenarioClip \<longrightarrow>
      progress (step (TimeUpdate 10) (mounted scenarioClip)) = Num 0"
    using progress_ratio [OF h d, where t = 10] by blast
  then have 1: "progress (step (TimeUpdate 10) (mounted scenarioClip)) = Num 0"
    unfolding se by (simp del: step.simps)
  have "40 = endSeconds scenarioClip \<longrightarrow>
      progress (step (TimeUpdate 40) (mounted scenarioClip)) = Num 100"
    using progress_ratio [OF h d, where t = 40] by blast
  then have 2: "progress (step (TimeUpdate 40) (mounted scenarioClip)) = Num 100"
    unfolding se by (simp del: step.simps)
  have "(25::real) \<le> 41 \<longrightarrow> js_le (progress (step (TimeUpdate 25) (mounted scenarioClip)))
         (progress (step (TimeUpdate 41) (mounted scenarioClip)))"
    using progress_ratio [OF h d, where t = 25 and t' = 41] by blast
  then have 3: "js_le (progress (step (TimeUpdate 25) (mounted scenarioClip)))
         (progress (step (TimeUpdate 41) (mounted scenarioClip)))"
    by (simp del: step.simps)
  from v 1 2 3 show ?thesis by simp
qed

text \<open>
  Claim C6, as stated, fails twice. On a zero-length clip the handler divides by the
  clip duration, and a tick at the clip's start stores \<open>NaN\<close> (\<open>0 / 0\<close>), a later one
  \<open>+Infinity\<close>, never zero. And the caption lookup does not look at the clip bounds: a
  caption lying wholly after its clip is returned as active once the time is in the
  caption's window (at \<open>t = 52\<close> for a caption at \<open>50..55\<close>, at \<open>t = 40.2\<close> for a
  caption at \<open>40.05..45\<close>, the clip being \<open>10..40\<close>).
\<close>

theorem timing_inconsistency_counterexample:
  "progress (step (TimeUpdate 10) (mounted zeroClip)) = NaN \<and>
   progress (step (TimeUpdate 10) (mounted zeroClip)) \<noteq> Num 0 \<and>
   progress (step (TimeUpdate 10.5) (mounted zeroClip)) = PosInf \<and>
   endSeconds strayClip < startSeconds strayCaption \<and>
   resolveCaption (captions strayClip) 52 = Inr (Some strayCaption) \<and>
   endSeconds lateClip < startSeconds lateCaption \<and>
   resolveCaption (captions lateClip) 40.2 = Inr (Some lateCaption)"
  by code_simp

lemma resolveCaption_Some:
  "resolveCaption cs t = Inr (Some c) \<Longrightarrow> c \<in> set cs \<and> captionActive t c"
  by (auto simp: resolveCaption_find find_Some_iff)

lemma zero_length_tick:
  assumes "videoRef s = Some v" "activeClip s = Some cl" "endSeconds cl = startSeconds cl"
  shows "progress (step (TimeUpdate t) s) =
           js_mul (js_div (js_max0 (binary64 (t - startSeconds cl))) (Num 0)) 100"
  unfolding tick_progress [OF assms(1,2)] assms(3) by (simp add: binary64_zero)

text \<open>
  Claim C6, amended. No frame raises an error, whatever the captions and the time. The
  lookup never consults the clip bounds: a caption it returns belongs to the list and
  has the time in its own closed window, so a caption lying wholly outside the clip's
  bounds is never the active caption while the time is within the clip's bounds. On a
  zero-length clip the tick completes and stores a progress that is \<open>NaN\<close> or
  \<open>+Infinity\<close>: \<open>NaN\<close> up to the clip's start, \<open>+Infinity\<close> for a binary64 time after it.
\<close>

theorem timing_inconsistency_tolerated:
  "(\<exists>ov. render_captions sc ac t = Inr ov) \<and>
   (resolveCaption (captions cl) t = Inr (Some c) \<longrightarrow>
      c \<in> set (captions cl) \<and> startSeconds c \<le> t \<and> t \<le> endSeconds c) \<and>
   (c \<in> set (captions cl) \<and> (endSeconds c < startSeconds cl \<or> endSeconds cl < startSeconds c) \<and>
      startSeconds cl \<le> t \<and> t \<le> endSeconds cl \<longrightarrow>
        resolveCaption (captions cl) t \<noteq> Inr (Some c)) \<and>
   (videoRef s = Some v \<and> activeClip s = Some cl \<and> endSeconds cl = startSeconds cl \<longrightarrow>
      (progress (step (TimeUpdate t) s) = NaN \<or> progress (step (TimeUpdate t) s) = PosInf) \<and>
      (t \<le> startSeconds cl \<longrightarrow> progress (step (TimeUpdate t) s) = NaN) \<and>
      (startSeconds cl < t \<and> isDouble t \<and> isDouble (startSeconds cl) \<longrightarrow>
         progress (step (TimeUpdate t) s) = PosInf))"
proof (intro conjI impI)
  show "\<exists>ov. render_captions sc ac t = Inr ov" by (rule render_captions_total)
next
  assume "resolveCaption (captions cl) t = Inr (Some c)"
  from resolveCaption_Some [OF this]
  show "c \<in> set (captions cl)" "startSeconds c \<le> t" "t \<le> endSeconds c"
    by (simp_all add: captionActive_def)
next
  assume a: "c \<in> set (captions cl) \<and> (endSeconds c < startSeconds cl \<or> endSeconds cl < startSeconds c) \<and>
      startSeconds cl \<le> t \<and> t \<le> endSeconds cl"
  then have "\<not> captionActive t c" by (auto simp: captionActive_def)
  then show "resolveCaption (captions cl) t \<noteq> Inr (Some c)"
    using resolveCaption_Some [of "captions cl" t c] by blast
next
  assume a: "videoRef s = Some v \<and> activeClip s = Some cl \<and> endSeconds cl = startSeconds cl"
  then have p: "progress (step (TimeUpdate t) s) =
           js_mul (js_div (js_max0 (binary64 (t - startSeconds cl))) (Num 0)) 100"
    by (intro zero_length_tick) simp_all
  from js_nonneg_cases [OF relTime_nonneg [of "t - startSeconds cl"]]
  show "progress (step (TimeUpdate t) s) = NaN \<or> progress (step (TimeUpdate t) s) = PosInf"
  proof (elim disjE exE conjE)
    fix r assume "js_max0 (binary64 (t - startSeconds cl)) = Num r" "0 \<le> r"
    then show ?thesis unfolding p by (cases "r = 0") simp_all
  next
    assume "js_max0 (binary64 (t - startSeconds cl)) = PosInf"
    then show ?thesis unfolding p by simp
  qed
  {
    assume "t \<le> startSeconds cl"
    then have "js_max0 (binary64 (t - startSeconds cl)) = Num 0"
      using binary64_nonpos [of "t - startSeconds cl"] by (simp add: js_max0_nonpos)
    then show "progress (step (TimeUpdate t) s) = NaN" unfolding p by simp
  }
  {
    assume b: "startSeconds cl < t \<and> isDouble t \<and> isDouble (startSeconds cl)"
    then have d: "0 < t - startSeconds cl" by simp
    have m: "0 < minSubnormal" by (simp add: minSubnormal_def)
    have "minSubnormal \<le> roundMag (t - startSeconds cl)"
      using b by (intro double_diff_pos) simp_all
    with m have r: "0 < roundMag (t - startSeconds cl)" by simp
    have "js_max0 (binary64 (t - startSeconds cl)) = PosInf \<or>
        js_max0 (binary64 (t - startSeconds cl)) = Num (roundMag (t - startSeconds cl))"
      using r by (simp add: binary64_pos [OF d] max_def)
    then show "progress (step (TimeUpdate t) s) = PosInf" unfolding p using r by auto
  }
qed

theorem timing_inconsistency_tolerated_witness:
  "resolveCaption (captions strayClip) 52 = Inr (Some strayCaption) \<and>
   strayCaption \<in> set (captions strayClip) \<and> startSeconds strayCaption \<le> 52 \<and>
   resolveCaption (captions strayClip) 13 \<noteq> Inr (Some strayCaption) \<and>
   progress (step (TimeUpdate 10) (mounted zeroClip)) = NaN \<and>
   progress (step (TimeUpdate 11) (mounted zeroClip)) = PosInf"
proof -
  let ?v = "\<lparr>v_currentTime = 10, v_paused = True\<rparr>"
  have v: "videoRef (mounted zeroClip) = Some ?v \<and>
      activeClip (mounted zeroClip) = Some zeroClip \<and> endSeconds zeroClip = startSeconds zeroClip"
    by (simp add: mounted_def zeroClip_def scenarioClip_def)
  have st: "startSeconds zeroClip = 10" by (simp add: zeroClip_def scenarioClip_def)
  have dbl: "isDouble 11" "isDouble 10" by code_simp+
  have r52: "resolveCaption (captions strayClip) 52 = Inr (Some strayCaption)" by code_simp
  have c: "strayCaption \<in> set (captions strayClip) \<and>
      (endSeconds strayCaption < startSeconds strayClip \<or> endSeconds strayClip < startSeconds strayCaption) \<and>
      startSeconds strayClip \<le> 13 \<and> 13 \<le> endSeconds strayClip"
    by (simp add: strayClip_def strayCaption_def scenarioClip_def)
  have 0: "strayCaption \<in> set (captions strayClip) \<and> startSeconds strayCaption \<le> 52"
    using timing_inconsistency_tolerated [where cl = strayClip and t = 52 and c = strayCaption] r52
    by blast
  have 1: "resolveCaption (captions strayClip) 13 \<noteq> Inr (Some strayCaption)"
    using timing_inconsistency_tolerated [where cl = strayClip and t = 13 and c = strayCaption] c
    by blast
  have 2: "progress (step (TimeUpdate 10) (mounted zeroClip)) = NaN"
    using timing_inconsistency_tolerated [where cl = zeroClip and t = 10 and s = "mounted zeroClip"
        and v = ?v] v st by simp
  have 3: "progress (step (TimeUpdate 11) (mounted zeroClip)) = PosInf"
    using timing_inconsistency_tolerated [where cl = zeroClip and t = 11 and s = "mounted zeroClip"
        and v = ?v] v st dbl by simp
  from r52 0 1 2 3 show ?thesis by simp
qed

text \<open>
  Claim C3. A tick with the video at or past the clip's end: during an export it runs
  \<open>finishExport\<close>, which stops a live recorder and pauses the video; otherwise it pauses
  the video, rewinds it to the clip's start and clears \<open>isPlaying\<close>, and nothing plays.
\<close>

theorem clip_boundary_tick:
  assumes "videoRef s = Some v" "activeClip s = Some c" "endSeconds c \<le> v_currentTime v"
  shows "(isExporting s \<longrightarrow>
            (\<exists>s1. handleTimeUpdate s = (finishExport s1)\<lparr>exportProgress := progress s1\<rparr> \<and>
                  mediaRecorderRef s1 = mediaRecorderRef s \<and> videoRef s1 = videoRef s \<and>
                  effects s1 = effects s) \<and>
            (\<forall>r. mediaRecorderRef s = Some r \<and> r_state r \<noteq> Inactive \<longrightarrow>
               mediaRecorderRef (handleTimeUpdate s) =
                 Some (r\<lparr>r_state := Inactive, r_stopPending := True\<rparr>) \<and>
               videoRef (handleTimeUpdate s) = Some (v\<lparr>v_paused := True\<rparr>) \<and>
               effects (handleTimeUpdate s) = effects s @ [RecorderStop, VideoPause])) \<and>
         (\<not> isExporting s \<longrightarrow>
            videoRef (handleTimeUpdate s) =
              Some (v\<lparr>v_paused := True, v_currentTime := startSeconds c\<rparr>) \<and>
            isPlaying (handleTimeUpdate s) = False \<and>
            effects (handleTimeUpdate s) = effects s @ [VideoPause] \<and>
            mediaRecorderRef (handleTimeUpdate s) = mediaRecorderRef s \<and>
            isExporting (handleTimeUpdate s) = False)"
proof (intro conjI impI allI)
  assume e: "isExporting s"
  let ?a = "js_max0 (binary64 (v_currentTime v - startSeconds c))"
  let ?p = "js_mul (js_div ?a (binary64 (endSeconds c - startSeconds c))) 100"
  let ?s1 = "s\<lparr>currentTime := ?a, progress := ?p\<rparr>"
  have "handleTimeUpdate s = (finishExport ?s1)\<lparr>exportProgress := progress ?s1\<rparr>"
    using assms e by (simp add: handleTimeUpdate_def Let_def)
  then show "\<exists>s1. handleTimeUpdate s = (finishExport s1)\<lparr>exportProgress := progress s1\<rparr> \<and>
                  mediaRecorderRef s1 = mediaRecorderRef s \<and> videoRef s1 = videoRef s \<and>
                  effects s1 = effects s"
    by (intro exI [of _ ?s1]) simp
next
  fix r
  assume e: "isExporting s" and r: "mediaRecorderRef s = Some r \<and> r_state r \<noteq> Inactive"
  show "mediaRecorderRef (handleTimeUpdate s) = Some (r\<lparr>r_state := Inactive, r_stopPending := True\<rparr>)"
    using assms e r by (simp add: handleTimeUpdate_def finishExport_def Let_def)
  show "videoRef (handleTimeUpdate s) = Some (v\<lparr>v_paused := True\<rparr>)"
    using assms e r by (simp add: handleTimeUpdate_def finishExport_def Let_def)
  show "effects (handleTimeUpdate s) = effects s @ [RecorderStop, VideoPause]"
    using assms e r by (simp add: handleTimeUpdate_def finishExport_def Let_def)
next
  assume e: "\<not> isExporting s"
  show "videoRef (handleTimeUpdate s) = Some (v\<lparr>v_paused := True, v_currentTime := startSeconds c\<rparr>)"
    using assms e by (simp add: handleTimeUpdate_def Let_def)
  show "isPlaying (handleTimeUpdate s) = False"
    using assms e by (simp add: handleTimeUpdate_def Let_def)
  show "effects (handleTimeUpdate s) = effects s @ [VideoPause]"
    using assms e by (simp add: handleTimeUpdate_def Let_def)
  show "mediaRecorderRef (handleTimeUpdate s) = mediaRecorderRef s"
    using assms e by (simp add: handleTimeUpdate_def Let_def)
  show "isExporting (handleTimeUpdate s) = False"
    using assms e by (simp add: handleTimeUpdate_def Let_def)
qed

theorem clip_boundary_tick_witness:
  "videoRef (handleTimeUpdate playingAtEnd) = Some \<lparr>v_currentTime = 10, v_paused = True\<rparr> \<and>
   isPlaying (handleTimeUpdate playingAtEnd) = False \<and>
   effects (handleTimeUpdate playingAtEnd) = [VideoPause] \<and>
   map_option r_state (mediaRecorderRef (handleTimeUpdate exportingAtEnd)) = Some Inactive \<and>
   videoRef (handleTimeUpdate exportingAtEnd) = Some \<lparr>v_currentTime = 40.2, v_paused = True\<rparr> \<and>
   effects (handleTimeUpdate exportingAtEnd) =
     [VideoPause, RecorderStart, VideoPlay, RecorderStop, VideoPause]"
proof -
  have p: "videoRef playingAtEnd = Some \<lparr>v_currentTime = 40.2, v_paused = False\<rparr>"
    "activeClip playingAtEnd = Some scenarioClip"
    "endSeconds scenarioClip \<le> v_currentTime \<lparr>v_currentTime = 40.2, v_paused = False\<rparr>"
    "\<not> isExporting playingAtEnd" "effects playingAtEnd = []"
    by (simp_all add: playingAtEnd_def mounted_def scenarioClip_def)
  have e: "videoRef exportingAtEnd = Some \<lparr>v_currentTime = 40.2, v_paused = False\<rparr>"
    "activeClip exportingAtEnd = Some scenarioClip"
    "isExporting exportingAtEnd"
    "effects exportingAtEnd = [VideoPause, RecorderStart, VideoPlay]"
    "mediaRecorderRef exportingAtEnd =
       Some \<lparr>r_state = Recording, r_mimeType = chooseMimeType chromium, r_clip = scenarioClip,
             r_hasAudio = True, r_stopPending = False\<rparr>"
    by (simp_all add: exportingAtEnd_def handleDownloadClip_def mounted_def chromium_def Let_def)
  from clip_boundary_tick [OF p(1,2,3)] p(4,5)
  have 1: "videoRef (handleTimeUpdate playingAtEnd) = Some \<lparr>v_currentTime = 10, v_paused = True\<rparr> \<and>
   isPlaying (handleTimeUpdate playingAtEnd) = False \<and>
   effects (handleTimeUpdate playingAtEnd) = [VideoPause]"
    by (simp add: scenarioClip_def)
  from clip_boundary_tick [OF e(1,2) p(3)] e(3,4,5)
  have 2: "map_option r_state (mediaRecorderRef (handleTimeUpdate exportingAtEnd)) = Some Inactive \<and>
   videoRef (handleTimeUpdate exportingAtEnd) = Some \<lparr>v_currentTime = 40.2, v_paused = True\<rparr> \<and>
   effects (handleTimeUpdate exportingAtEnd) =
     [VideoPause, RecorderStart, VideoPlay, RecorderStop, VideoPause]"
    by simp
  from 1 2 show ?thesis by simp
qed

section \<open>Properties of the export file name\<close>

lemma replaceAll_single: "replaceAll m [u] s = map (\<lambda>c. if m c then u else c) s"
  by (induction s) auto

lemma replaceAll_empty: "replaceAll m [] s = filter (\<lambda>c. \<not> m c) s"
  by (induction s) auto

lemma matchesNonAlnum_iff: "matchesNonAlnum ch = (\<not> spec_alphanumeric ch)"
proof (cases "0x61 \<le> ch \<and> ch \<le> 0x7A")
  case True
  then have "unat (ch - 0x20) = unat ch - 32"
    by (simp add: unat_sub word_le_nat_alt)
  with True show ?thesis
    unfolding matchesNonAlnum_def spec_alphanumeric_def canonicalize_def Let_def
    by (simp add: word_le_nat_alt) arith
next
  case False
  then show ?thesis
    unfolding matchesNonAlnum_def spec_alphanumeric_def canonicalize_def Let_def
    by (simp add: word_le_nat_alt) arith
qed

lemma exportFileName_map:
  "exportFileName c = map (\<lambda>ch. if spec_alphanumeric ch then ch else 0x5F) (title c) @ js ''.webm''"
  by (simp add: exportFileName_def js_def replaceAll_single matchesNonAlnum_iff)

text \<open>
  Claim C9. An export that reaches the clip's end and whose recorder then delivers its
  stop event saves one file, named after the clip's title with every character outside
  the ASCII letters and digits replaced by an underscore, followed by \<open>.webm\<close>; both
  recording formats the export can choose are WebM.
\<close>

theorem export_file_name:
  assumes "videoRef s = Some v" "canvasRef s" "activeClip s = Some c" "captureOk p"
    and "endSeconds c \<le> t"
  shows "effects (run [TimeUpdate t, RecorderStopped d] (handleDownloadClip p s)) =
           effects s @ [VideoPause, RecorderStart, VideoPlay, RecorderStop, VideoPause,
             Download (map (\<lambda>ch. if spec_alphanumeric ch then ch else 0x5F) (title c) @ js ''.webm'')
               (if d = [] then [] else [d]) (chooseMimeType p)] \<and>
         (chooseMimeType p = js ''video/webm;codecs=vp9'' \<or> chooseMimeType p = js ''video/webm'')"
proof
  show "chooseMimeType p = js ''video/webm;codecs=vp9'' \<or> chooseMimeType p = js ''video/webm''"
    by (simp add: chooseMimeType_def)
  let ?s0 = "handleDownloadClip p s"
  have s0: "videoRef ?s0 = Some (v\<lparr>v_paused := \<not> playStarts p, v_currentTime := startSeconds c\<rparr>)"
    "activeClip ?s0 = Some c" "isExporting ?s0"
    "mediaRecorderRef ?s0 = Some \<lparr>r_state = Recording, r_mimeType = chooseMimeType p,
        r_clip = c, r_hasAudio = hasAudioTrack p, r_stopPending = False\<rparr>"
    "recordedChunksRef ?s0 = []"
    "effects ?s0 = effects s @ [VideoPause, RecorderStart, VideoPlay]"
    using assms by (simp_all add: handleDownloadClip_def Let_def)
  let ?s1 = "step (TimeUpdate t) ?s0"
  have s1: "mediaRecorderRef ?s1 = Some \<lparr>r_state = Inactive, r_mimeType = chooseMimeType p,
        r_clip = c, r_hasAudio = hasAudioTrack p, r_stopPending = True\<rparr>"
    "recordedChunksRef ?s1 = []"
    "effects ?s1 = effects s @ [VideoPause, RecorderStart, VideoPlay, RecorderStop, VideoPause]"
    using s0 assms(5) by (simp_all add: handleTimeUpdate_def finishExport_def Let_def)
  have "effects (step (RecorderStopped d) ?s1) =
      effects ?s1 @ [Download (exportFileName c) (if d = [] then [] else [d]) (chooseMimeType p)]"
    using s1(1,2) by (simp add: onstop_def ondataavailable_def del: step.simps(1))
  then show "effects (run [TimeUpdate t, RecorderStopped d] ?s0) =
           effects s @ [VideoPause, RecorderStart, VideoPlay, RecorderStop, VideoPause,
             Download (map (\<lambda>ch. if spec_alphanumeric ch then ch else 0x5F) (title c) @ js ''.webm'')
               (if d = [] then [] else [d]) (chooseMimeType p)]"
    using s1(3) by (simp add: exportFileName_map del: step.simps)
qed

theorem export_file_name_witness:
  "effects (run [TimeUpdate 40, RecorderStopped [1, 2, 3]] (handleDownloadClip chromium (mounted scenarioClip))) =
     [VideoPause, RecorderStart, VideoPlay, RecorderStop, VideoPause,
      Download (js ''Top_5__best_moments_.webm'') [[1, 2, 3]] (js ''video/webm;codecs=vp9'')]"
proof -
  have h: "videoRef (mounted scenarioClip) = Some \<lparr>v_currentTime = 10, v_paused = True\<rparr>"
    "canvasRef (mounted scenarioClip)" "activeClip (mounted scenarioClip) = Some scenarioClip"
    "captureOk chromium" "endSeconds scenarioClip \<le> 40"
    by (simp_all add: mounted_def scenarioClip_def chromium_def)
  have n: "map (\<lambda>ch. if spec_alphanumeric ch then ch else 0x5F) (title scenarioClip) @ js ''.webm'' =
      js ''Top_5__best_moments_.webm''"
    by code_simp
  have m: "chooseMimeType chromium = js ''video/webm;codecs=vp9''"
    by (simp add: chooseMimeType_def chromium_def)
  have e: "effects (mounted scenarioClip) = []" by (simp add: mounted_def)
  from export_file_name [OF h, of "[1, 2, 3]"] show ?thesis
    unfolding n m e by simp
qed

section \<open>Properties of parseTime\<close>

lemma cleanStr_spec: "replaceAll matchesNonDigitColon [] s = spec_cleaned s"
  by (simp add: replaceAll_empty matchesNonDigitColon_def spec_cleaned_def)

lemma cleanStr_chars: "c \<in> set (spec_cleaned s) \<Longrightarrow> isDigit c \<or> c = colon"
  by (auto simp: spec_cleaned_def)

lemma splitChar_nonempty: "splitChar sep s \<noteq> []"
  by (induction s) (auto split: list.splits)

lemma splitChar_no_sep: "sep \<notin> set a \<Longrightarrow> splitChar sep a = [a]"
  by (induction a) auto

lemma splitChar_append: "sep \<notin> set a \<Longrightarrow> splitChar sep (a @ sep # rest) = a # splitChar sep rest"
  by (induction a) auto

lemma length_splitChar: "length (splitChar sep s) = count_list s sep + 1"
  by (induction s) (auto split: list.splits simp: splitChar_nonempty)

lemma splitChar_parts: "p \<in> set (splitChar sep s) \<Longrightarrow> set p \<subseteq> set s - {sep}"
proof (induction s arbitrary: p)
  case Nil
  then show ?case by simp
next
  case (Cons c cs)
  show ?case
  proof (cases "c = sep")
    case True
    with Cons show ?thesis by auto
  next
    case False
    obtain q qs where q: "splitChar sep cs = q # qs"
      using splitChar_nonempty [of sep cs] by (cases "splitChar sep cs") auto
    with Cons.prems False have "p = c # q \<or> p \<in> set qs" by auto
    then show ?thesis
    proof
      assume "p = c # q"
      moreover have "set q \<subseteq> set cs - {sep}" using Cons.IH [of q] q by simp
      ultimately show ?thesis using False by auto
    next
      assume "p \<in> set qs"
      then have "set p \<subseteq> set cs - {sep}" using Cons.IH [of p] q by simp
      then show ?thesis by auto
    qed
  qed
qed

lemma binary64_pow2:
  assumes "- 1074 \<le> k" "k \<le> 1023"
  shows "binary64 (2 powi k) = Num (2 powi k)"
proof -
  let ?x = "(2::real) powi k"
  have x: "0 < ?x" by simp
  have e: "expo ?x = k"
    by (rule expo_unique [OF x]) (simp_all add: power_int_strict_increasing)
  let ?E = "max k (- 1022)"
  have u: "ulp ?x = 2 powi (?E - 52)" by (simp add: ulp_def e)
  have ge: "0 \<le> k - ?E + 52" using assms(1) by simp
  have "?x / ulp ?x = 2 powi (k - ?E + 52)"
    unfolding u pow2_diff by (simp add: algebra_simps)
  also have "\<dots> = real_of_int (2 ^ nat (k - ?E + 52))"
    using ge by (simp add: power_int_def)
  finally have r: "roundMag ?x = ?x" by (rule roundMag_exact)
  have "(2::real) powi k < 2 powi 1024"
    using assms(2) by (intro power_int_strict_increasing) simp_all
  then have "\<not> overflowBound \<le> ?x" unfolding overflowBound_eq by (simp only: not_le)
  then show ?thesis unfolding binary64_pos [OF x] r by (simp only: if_False)
qed

lemma binary64_bounded:
  assumes "0 \<le> x" "x \<le> 2 powi k" "- 1074 \<le> k" "k \<le> 1023"
  shows "\<exists>r. binary64 x = Num r \<and> 0 \<le> r \<and> r \<le> 2 powi k"
  using assms binary64_pow2 [OF assms(3,4)]
  by (intro binary64_le_double) (simp_all add: isDouble_def)

lemma js_mul_bounded:
  assumes "x = Num r" "0 \<le> r" "r \<le> 2 powi k" "0 \<le> c" "c \<le> 2 powi j"
    and "- 1074 \<le> k + j" "k + j \<le> 1023"
  shows "\<exists>r'. js_mul x c = Num r' \<and> 0 \<le> r' \<and> r' \<le> 2 powi (k + j)"
proof -
  have "r * c \<le> 2 powi k * 2 powi j" using assms(2-5) by (intro mult_mono) simp_all
  then have "r * c \<le> 2 powi (k + j)" by (simp add: power_int_add)
  moreover have "0 \<le> r * c" using assms(2,4) by simp
  ultimately show ?thesis unfolding assms(1) js_mul.simps
    using assms(6,7) by (intro binary64_bounded) simp_all
qed

lemma js_add_bounded:
  assumes "x = Num r" "0 \<le> r" "r \<le> 2 powi k" "y = Num r'" "0 \<le> r'" "r' \<le> 2 powi k"
    and "- 1074 \<le> k + 1" "k + 1 \<le> 1023"
  shows "\<exists>q. js_add x y = Num q \<and> 0 \<le> q \<and> q \<le> 2 powi (k + 1)"
proof -
  have "r + r' \<le> 2 powi k + 2 powi k" using assms(3,6) by simp
  then have "r + r' \<le> 2 powi (k + 1)" by (simp add: power_int_add)
  moreover have "0 \<le> r + r'" using assms(2,5) by simp
  ultimately show ?thesis unfolding assms(1,4) js_add.simps
    using assms(7,8) by (intro binary64_bounded) simp_all
qed

lemma js_mul_nonneg: "js_le (Num 0) x \<Longrightarrow> 0 < k \<Longrightarrow> js_le (Num 0) (js_mul x k)"
  using binary64_nonneg by (cases x) simp_all

lemma js_add_nonneg: "js_le (Num 0) x \<Longrightarrow> js_le (Num 0) y \<Longrightarrow> js_le (Num 0) (js_add x y)"
  using binary64_nonneg by (cases x; cases y) simp_all

lemma digit_value: "isDigit c \<Longrightarrow> unat (c - 0x30) \<le> 9"
proof -
  assume "isDigit c"
  then have "0x30 \<le> c" "c \<le> 0x39" by (simp_all add: isDigit_def)
  then have "unat (c - 0x30) = unat c - 48" "unat c \<le> 57"
    by (simp_all add: unat_sub word_le_nat_alt)
  then show ?thesis by simp
qed

lemma decimalValue_snoc: "decimalValue (p @ [c]) = 10 * decimalValue p + unat (c - 0x30)"
  by (simp add: decimalValue_def)

lemma decimalValue_bound: "list_all isDigit p \<Longrightarrow> decimalValue p < 10 ^ length p"
proof (induction p rule: rev_induct)
  case Nil
  then show ?case by (simp add: decimalValue_def)
next
  case (snoc c p)
  then have "decimalValue p < 10 ^ length p" "unat (c - 0x30) \<le> 9"
    by (simp_all add: digit_value)
  then show ?case by (simp add: decimalValue_snoc)
qed

lemma decimalValue_nines: "decimalValue (replicate n 0x39) = 10 ^ n - 1"
proof (induction n)
  case 0
  then show ?case by (simp add: decimalValue_def)
next
  case (Suc n)
  have "replicate (Suc n) (0x39 :: code_unit) = replicate n 0x39 @ [0x39]"
    by (simp add: replicate_append_same)
  then have "decimalValue (replicate (Suc n) 0x39) = 10 * decimalValue (replicate n 0x39) + 9"
    by (simp add: decimalValue_snoc)
  also have "\<dots> = 10 * (10 ^ n - 1) + 9" by (simp add: Suc)
  also have "\<dots> = 10 ^ Suc n - 1"
  proof -
    have "(1::nat) \<le> 10 ^ n" by simp
    then show ?thesis by (simp add: algebra_simps)
  qed
  finally show ?case .
qed

lemma Number_digits_digits:
  "(\<forall>c \<in> set p. isDigit c) \<Longrightarrow> Number_digits p = Some (binary64 (real (decimalValue p)))"
  by (simp add: Number_digits_def list_all_iff)

lemma part_digits: "p \<in> set (splitChar colon (spec_cleaned s)) \<Longrightarrow> \<forall>c \<in> set p. isDigit c"
proof -
  assume "p \<in> set (splitChar colon (spec_cleaned s))"
  from splitChar_parts [OF this] show "\<forall>c \<in> set p. isDigit c"
    using cleanStr_chars [of _ s] by auto
qed

lemma part_Number:
  "p \<in> set (splitChar colon (spec_cleaned s)) \<Longrightarrow>
     Number_digits p = Some (binary64 (real (decimalValue p)))"
  by (intro Number_digits_digits part_digits)

lemma parseTime_parts:
  "s \<noteq> [] \<Longrightarrow> parseTime s =
     (case splitChar colon (spec_cleaned s) of
        [a, b] \<Rightarrow> (case (Number_digits a, Number_digits b) of
                      (Some m, Some sec) \<Rightarrow> Some (js_add (js_mul m 60) sec) | _ \<Rightarrow> None)
      | [a, b, c] \<Rightarrow> (case (Number_digits a, Number_digits b, Number_digits c) of
                      (Some h, Some m, Some sec) \<Rightarrow>
                        Some (js_add (js_add (js_mul h 3600) (js_mul m 60)) sec)
                    | _ \<Rightarrow> None)
      | _ \<Rightarrow> Some (Num 0))"
proof -
  assume ne: "s \<noteq> []"
  show ?thesis
  proof (cases "splitChar colon (spec_cleaned s)")
    case Nil
    then show ?thesis using splitChar_nonempty by blast
  next
    case (Cons a as)
    note c1 = this
    show ?thesis
    proof (cases as)
      case Nil
      with c1 ne show ?thesis by (simp add: parseTime_def cleanStr_spec Let_def)
    next
      case (Cons b bs)
      note c2 = this
      show ?thesis
      proof (cases bs)
        case Nil
        with c1 c2 ne show ?thesis by (simp add: parseTime_def cleanStr_spec Let_def)
      next
        case (Cons c cs)
        with c1 c2 ne show ?thesis
          by (cases cs) (simp_all add: parseTime_def cleanStr_spec Let_def)
      qed
    qed
  qed
qed

lemma parseTime_two:
  assumes "s \<noteq> []" "splitChar colon (spec_cleaned s) = [a, b]"
  shows "parseTime s =
     Some (js_add (js_mul (binary64 (real (decimalValue a))) 60) (binary64 (real (decimalValue b))))"
proof -
  have "a \<in> set (splitChar colon (spec_cleaned s))" "b \<in> set (splitChar colon (spec_cleaned s))"
    unfolding assms(2) by simp_all
  then have "Number_digits a = Some (binary64 (real (decimalValue a)))"
    "Number_digits b = Some (binary64 (real (decimalValue b)))"
    by (simp_all only: part_Number)
  then show ?thesis using parseTime_parts [OF assms(1)] assms(2) by simp
qed

lemma parseTime_three:
  assumes "s \<noteq> []" "splitChar colon (spec_cleaned s) = [a, b, c]"
  shows "parseTime s =
     Some (js_add (js_add (js_mul (binary64 (real (decimalValue a))) 3600)
                          (js_mul (binary64 (real (decimalValue b))) 60))
                  (binary64 (real (decimalValue c))))"
proof -
  have "a \<in> set (splitChar colon (spec_cleaned s))" "b \<in> set (splitChar colon (spec_cleaned s))"
    "c \<in> set (splitChar colon (spec_cleaned s))"
    unfolding assms(2) by simp_all
  then have "Number_digits a = Some (binary64 (real (decimalValue a)))"
    "Number_digits b = Some (binary64 (real (decimalValue b)))"
    "Number_digits c = Some (binary64 (real (decimalValue c)))"
    by (simp_all only: part_Number)
  then show ?thesis using parseTime_parts [OF assms(1)] assms(2) by simp
qed

lemma exact_two:
  assumes "A * 60 + B < (2::nat) ^ 53"
  shows "js_add (js_mul (binary64 (real A)) 60) (binary64 (real B)) = Num (real (A * 60 + B))"
proof -
  have b: "A < 2 ^ 53" "A * 60 < 2 ^ 53" "B < 2 ^ 53" using assms by simp_all
  have "js_mul (binary64 (real A)) 60 = binary64 (real (A * 60))"
    by (simp add: binary64_nat_exact [OF b(1)])
  then have "js_mul (binary64 (real A)) 60 = Num (real (A * 60))"
    by (simp only: binary64_nat_exact [OF b(2)])
  moreover have "js_add (Num (real (A * 60))) (Num (real B)) = binary64 (real (A * 60 + B))"
    by simp
  ultimately show ?thesis
    by (simp only: binary64_nat_exact [OF b(3)] binary64_nat_exact [OF assms])
qed

lemma exact_three:
  assumes "A * 3600 + B * 60 + C < (2::nat) ^ 53"
  shows "js_add (js_add (js_mul (binary64 (real A)) 3600) (js_mul (binary64 (real B)) 60))
           (binary64 (real C)) = Num (real (A * 3600 + B * 60 + C))"
proof -
  have b: "A < 2 ^ 53" "A * 3600 < 2 ^ 53" "B < 2 ^ 53" "B * 60 < 2 ^ 53" "C < 2 ^ 53"
    "A * 3600 + B * 60 < 2 ^ 53"
    using assms by simp_all
  have "js_mul (binary64 (real A)) 3600 = binary64 (real (A * 3600))"
    by (simp add: binary64_nat_exact [OF b(1)])
  then have 1: "js_mul (binary64 (real A)) 3600 = Num (real (A * 3600))"
    by (simp only: binary64_nat_exact [OF b(2)])
  have "js_mul (binary64 (real B)) 60 = binary64 (real (B * 60))"
    by (simp add: binary64_nat_exact [OF b(3)])
  then have 2: "js_mul (binary64 (real B)) 60 = Num (real (B * 60))"
    by (simp only: binary64_nat_exact [OF b(4)])
  have "js_add (Num (real (A * 3600))) (Num (real (B * 60))) = binary64 (real (A * 3600 + B * 60))"
    by simp
  then have 3: "js_add (Num (real (A * 3600))) (Num (real (B * 60))) = Num (real (A * 3600 + B * 60))"
    by (simp only: binary64_nat_exact [OF b(6)])
  have "js_add (Num (real (A * 3600 + B * 60))) (Num (real C)) = binary64 (real (A * 3600 + B * 60 + C))"
    by simp
  then have 4: "js_add (Num (real (A * 3600 + B * 60))) (Num (real C)) = Num (real (A * 3600 + B * 60 + C))"
    by (simp only: binary64_nat_exact [OF assms])
  show ?thesis
    by (simp only: 1 2 3 4 binary64_nat_exact [OF b(5)])
qed

lemma run_bounded:
  assumes "\<forall>c \<in> set p. isDigit c" "length p \<le> 300"
  shows "\<exists>r. binary64 (real (decimalValue p)) = Num r \<and> 0 \<le> r \<and> r \<le> 2 powi 997"
proof -
  have "decimalValue p < 10 ^ length p" using assms(1) by (intro decimalValue_bound) (simp add: list_all_iff)
  also have "(10::nat) ^ length p \<le> 10 ^ 300" using assms(2) by (intro power_increasing) simp_all
  finally have "real (decimalValue p) \<le> real (10 ^ 300)" by (simp only: of_nat_le_iff less_imp_le)
  also have "real (10 ^ 300) \<le> 2 powi 997" by simp
  finally show ?thesis by (intro binary64_bounded) simp_all
qed

lemma finite_two:
  assumes "x = Num r" "0 \<le> r" "r \<le> 2 powi k" "y = Num r'" "0 \<le> r'" "r' \<le> 2 powi k"
    and "- 1074 \<le> k" "k + 7 \<le> 1023"
  shows "\<exists>q. js_add (js_mul x 60) y = Num q \<and> 0 \<le> q"
proof -
  have c: "(0::real) \<le> 60" "(60::real) \<le> 2 powi 6" by simp_all
  from js_mul_bounded [OF assms(1-3) c] assms(7,8)
  obtain m where m: "js_mul x 60 = Num m" "0 \<le> m" "m \<le> 2 powi (k + 6)" by auto
  have y: "r' \<le> 2 powi (k + 6)" using assms(6) pow2_mono [of k "k + 6"] by simp
  from js_add_bounded [OF m assms(4,5) y] assms(7,8) show ?thesis by auto
qed

lemma finite_three:
  assumes "x = Num r" "0 \<le> r" "r \<le> 2 powi k" "y = Num r'" "0 \<le> r'" "r' \<le> 2 powi k"
    and "z = Num r''" "0 \<le> r''" "r'' \<le> 2 powi k"
    and "- 1074 \<le> k" "k + 14 \<le> 1023"
  shows "\<exists>q. js_add (js_add (js_mul x 3600) (js_mul y 60)) z = Num q \<and> 0 \<le> q"
proof -
  have c: "(0::real) \<le> 3600" "(3600::real) \<le> 2 powi 12" "(0::real) \<le> 60" "(60::real) \<le> 2 powi 6"
    by simp_all
  from js_mul_bounded [OF assms(1-3) c(1,2)] assms(10,11)
  obtain m where m: "js_mul x 3600 = Num m" "0 \<le> m" "m \<le> 2 powi (k + 12)" by auto
  from js_mul_bounded [OF assms(4-6) c(3,4)] assms(10,11)
  obtain n where n: "js_mul y 60 = Num n" "0 \<le> n" "n \<le> 2 powi (k + 6)" by auto
  have n': "n \<le> 2 powi (k + 12)" using n(3) pow2_mono [of "k + 6" "k + 12"] by simp
  from js_add_bounded [OF m n(1,2) n'] assms(10,11)
  obtain u where u: "js_add (js_mul x 3600) (js_mul y 60) = Num u" "0 \<le> u" "u \<le> 2 powi (k + 12 + 1)"
    by auto
  have z: "r'' \<le> 2 powi (k + 12 + 1)" using assms(9) pow2_mono [of k "k + 12 + 1"] by simp
  from js_add_bounded [OF u assms(7,8) z] assms(10,11) show ?thesis by auto
qed

text \<open>
  Claim C10, as stated, fails: the result is not always finite. With 310 nines as the
  minutes, \<open>Number\<close> overflows to \<open>Infinity\<close> and \<open>parseTime\<close> returns \<open>Infinity\<close>.
\<close>

theorem parseTime_overflow_counterexample:
  "parseTime longTimestamp = Some PosInf"
proof -
  let ?a = "replicate 310 (0x39 :: code_unit)"
  have cl: "spec_cleaned longTimestamp = ?a @ colon # js ''00''"
    by (simp add: longTimestamp_def spec_cleaned_def js_def isDigit_def colon_def)
  have "colon \<notin> set ?a" "colon \<notin> set (js ''00'')" by (simp_all add: colon_def js_def)
  then have sp: "splitChar colon (spec_cleaned longTimestamp) = [?a, js ''00'']"
    unfolding cl by (simp add: splitChar_append splitChar_no_sep)
  have ne: "longTimestamp \<noteq> []" by (simp add: longTimestamp_def)
  have "overflowBound \<le> real (10 ^ 310 - 1)" by (simp add: overflowBound_def)
  then have a: "binary64 (real (decimalValue ?a)) = PosInf"
    unfolding decimalValue_nines by (rule binary64_overflow)
  have b: "binary64 (real (decimalValue (js ''00''))) = Num 0"
    by (simp add: decimalValue_def js_def binary64_zero)
  show ?thesis unfolding parseTime_two [OF ne sp] a b by simp
qed

text \<open>
  Claim C10, amended. \<open>parseTime\<close> returns a number for every string, never \<open>NaN\<close> and
  never negative, the parts of the cleaned string always being runs of digits. With the
  cleaned string \<open>a:b\<close> the result is \<open>a * 60 + b\<close>, with \<open>a:b:c\<close> it is
  \<open>a * 3600 + b * 60 + c\<close> (an empty part counts 0), in double-precision arithmetic:
  exact when the value is below \<open>2 ^ 53\<close>, finite when every part has at most 300 digits.
  With no colon or more than two the result is 0.
\<close>

theorem parseTime_total:
  "(\<exists>x. parseTime s = Some x \<and> js_le (Num 0) x) \<and>
   (\<forall>a b. spec_cleaned s = a @ [colon] @ b \<and> colon \<notin> set a \<and> colon \<notin> set b \<longrightarrow>
      parseTime s = Some (js_add (js_mul (binary64 (real (decimalValue a))) 60)
                                 (binary64 (real (decimalValue b)))) \<and>
      (decimalValue a * 60 + decimalValue b < 2 ^ 53 \<longrightarrow>
         parseTime s = Some (Num (real (decimalValue a * 60 + decimalValue b)))) \<and>
      (length a \<le> 300 \<and> length b \<le> 300 \<longrightarrow> (\<exists>r. parseTime s = Some (Num r) \<and> 0 \<le> r))) \<and>
   (\<forall>a b c. spec_cleaned s = a @ [colon] @ b @ [colon] @ c \<and>
        colon \<notin> set a \<and> colon \<notin> set b \<and> colon \<notin> set c \<longrightarrow>
      parseTime s = Some (js_add (js_add (js_mul (binary64 (real (decimalValue a))) 3600)
                                         (js_mul (binary64 (real (decimalValue b))) 60))
                                 (binary64 (real (decimalValue c)))) \<and>
      (decimalValue a * 3600 + decimalValue b * 60 + decimalValue c < 2 ^ 53 \<longrightarrow>
         parseTime s =
           Some (Num (real (decimalValue a * 3600 + decimalValue b * 60 + decimalValue c)))) \<and>
      (length a \<le> 300 \<and> length b \<le> 300 \<and> length c \<le> 300 \<longrightarrow>
         (\<exists>r. parseTime s = Some (Num r) \<and> 0 \<le> r))) \<and>
   (count_list (spec_cleaned s) colon \<noteq> 1 \<and> count_list (spec_cleaned s) colon \<noteq> 2 \<longrightarrow>
      parseTime s = Some (Num 0))"
proof (cases "s = []")
  case True
  then have "parseTime s = Some (Num 0)" "spec_cleaned s = []"
    by (simp_all add: parseTime_def spec_cleaned_def)
  then show ?thesis by simp
next
  case False
  note pt = parseTime_parts [OF False]
  let ?xs = "splitChar colon (spec_cleaned s)"
  let ?N = "\<lambda>p. binary64 (real (decimalValue p))"
  have nn: "js_le (Num 0) (?N p)" for p by (intro binary64_nonneg) simp
  have two: "parseTime s = Some (js_add (js_mul (?N a) 60) (?N b)) \<and>
      (decimalValue a * 60 + decimalValue b < 2 ^ 53 \<longrightarrow>
         parseTime s = Some (Num (real (decimalValue a * 60 + decimalValue b)))) \<and>
      (length a \<le> 300 \<and> length b \<le> 300 \<longrightarrow> (\<exists>r. parseTime s = Some (Num r) \<and> 0 \<le> r))"
    if xs: "?xs = [a, b]" for a b
  proof (intro conjI impI)
    show p: "parseTime s = Some (js_add (js_mul (?N a) 60) (?N b))"
      by (rule parseTime_two [OF False xs])
    show "parseTime s = Some (Num (real (decimalValue a * 60 + decimalValue b)))"
      if "decimalValue a * 60 + decimalValue b < 2 ^ 53"
      unfolding p exact_two [OF that] ..
    show "\<exists>r. parseTime s = Some (Num r) \<and> 0 \<le> r" if l: "length a \<le> 300 \<and> length b \<le> 300"
    proof -
      have "a \<in> set ?xs" "b \<in> set ?xs" unfolding xs by simp_all
      then have d: "\<forall>c \<in> set a. isDigit c" "\<forall>c \<in> set b. isDigit c"
        using part_digits by blast+
      from run_bounded [OF d(1)] l obtain r where r: "?N a = Num r" "0 \<le> r" "r \<le> 2 powi 997" by blast
      from run_bounded [OF d(2)] l obtain r' where r': "?N b = Num r'" "0 \<le> r'" "r' \<le> 2 powi 997" by blast
      from finite_two [OF r r'] show ?thesis unfolding p by simp
    qed
  qed
  have three: "parseTime s = Some (js_add (js_add (js_mul (?N a) 3600) (js_mul (?N b) 60)) (?N c)) \<and>
      (decimalValue a * 3600 + decimalValue b * 60 + decimalValue c < 2 ^ 53 \<longrightarrow>
         parseTime s =
           Some (Num (real (decimalValue a * 3600 + decimalValue b * 60 + decimalValue c)))) \<and>
      (length a \<le> 300 \<and> length b \<le> 300 \<and> length c \<le> 300 \<longrightarrow>
         (\<exists>r. parseTime s = Some (Num r) \<and> 0 \<le> r))"
    if xs: "?xs = [a, b, c]" for a b c
  proof (intro conjI impI)
    show p: "parseTime s = Some (js_add (js_add (js_mul (?N a) 3600) (js_mul (?N b) 60)) (?N c))"
      by (rule parseTime_three [OF False xs])
    show "parseTime s = Some (Num (real (decimalValue a * 3600 + decimalValue b * 60 + decimalValue c)))"
      if "decimalValue a * 3600 + decimalValue b * 60 + decimalValue c < 2 ^ 53"
      unfolding p exact_three [OF that] ..
    show "\<exists>r. parseTime s = Some (Num r) \<and> 0 \<le> r"
      if l: "length a \<le> 300 \<and> length b \<le> 300 \<and> length c \<le> 300"
    proof -
      have "a \<in> set ?xs" "b \<in> set ?xs" "c \<in> set ?xs" unfolding xs by simp_all
      then have d: "\<forall>c \<in> set a. isDigit c" "\<forall>c \<in> set b. isDigit c" "\<forall>x \<in> set c. isDigit x"
        using part_digits by blast+
      from run_bounded [OF d(1)] l obtain r where r: "?N a = Num r" "0 \<le> r" "r \<le> 2 powi 997" by blast
      from run_bounded [OF d(2)] l obtain r' where r': "?N b = Num r'" "0 \<le> r'" "r' \<le> 2 powi 997" by blast
      from run_bounded [OF d(3)] l obtain r'' where r'': "?N c = Num r''" "0 \<le> r''" "r'' \<le> 2 powi 997" by blast
      from finite_three [OF r r' r''] show ?thesis unfolding p by simp
    qed
  qed
  have other: "parseTime s = Some (Num 0)" if "length ?xs \<noteq> 2" "length ?xs \<noteq> 3"
    using pt that by (auto split: list.splits)
  have c1: "\<exists>x. parseTime s = Some x \<and> js_le (Num 0) x"
  proof (cases "length ?xs = 2")
    case True
    then obtain a b where "?xs = [a, b]"
      by (cases ?xs; cases "tl ?xs"; cases "tl (tl ?xs)") auto
    from two [OF this] show ?thesis
      using js_add_nonneg [OF js_mul_nonneg [OF nn [of a], of 60] nn [of b]] by simp
  next
    case n2: False
    show ?thesis
    proof (cases "length ?xs = 3")
      case True
      then obtain a b c where "?xs = [a, b, c]"
        by (cases ?xs; cases "tl ?xs"; cases "tl (tl ?xs)"; cases "tl (tl (tl ?xs))") auto
      from three [OF this] show ?thesis
        using js_add_nonneg [OF js_add_nonneg [OF js_mul_nonneg [OF nn [of a], of 3600]
              js_mul_nonneg [OF nn [of b], of 60]] nn [of c]]
        by simp
    next
      case False
      from other [OF n2 False] show ?thesis by simp
    qed
  qed
  have c2: "parseTime s = Some (js_add (js_mul (?N a) 60) (?N b)) \<and>
      (decimalValue a * 60 + decimalValue b < 2 ^ 53 \<longrightarrow>
         parseTime s = Some (Num (real (decimalValue a * 60 + decimalValue b)))) \<and>
      (length a \<le> 300 \<and> length b \<le> 300 \<longrightarrow> (\<exists>r. parseTime s = Some (Num r) \<and> 0 \<le> r))"
    if "spec_cleaned s = a @ [colon] @ b \<and> colon \<notin> set a \<and> colon \<notin> set b" for a b
  proof -
    have "?xs = [a, b]" using that by (simp add: splitChar_append splitChar_no_sep)
    then show ?thesis by (rule two)
  qed
  have c3: "parseTime s = Some (js_add (js_add (js_mul (?N a) 3600) (js_mul (?N b) 60)) (?N c)) \<and>
      (decimalValue a * 3600 + decimalValue b * 60 + decimalValue c < 2 ^ 53 \<longrightarrow>
         parseTime s =
           Some (Num (real (decimalValue a * 3600 + decimalValue b * 60 + decimalValue c)))) \<and>
      (length a \<le> 300 \<and> length b \<le> 300 \<and> length c \<le> 300 \<longrightarrow>
         (\<exists>r. parseTime s = Some (Num r) \<and> 0 \<le> r))"
    if "spec_cleaned s = a @ [colon] @ b @ [colon] @ c \<and>
        colon \<notin> set a \<and> colon \<notin> set b \<and> colon \<notin> set c" for a b c
  proof -
    have "?xs = [a, b, c]" using that by (simp add: splitChar_append splitChar_no_sep)
    then show ?thesis by (rule three)
  qed
  have c4: "parseTime s = Some (Num 0)"
    if "count_list (spec_cleaned s) colon \<noteq> 1 \<and> count_list (spec_cleaned s) colon \<noteq> 2"
    using that other by (simp add: length_splitChar)
  from c1 c2 c3 c4 show ?thesis by blast
qed

theorem parseTime_total_witness:
  "parseTime (js ''01:30'') = Some (Num 90) \<and> parseTime (js ''1:02:03'') = Some (Num 3723) \<and>
   parseTime (js ''90'') = Some (Num 0) \<and> parseTime (js ''1:2:3:4'') = Some (Num 0)"
proof -
  have n: "decimalValue (js ''01'') = 1" "decimalValue (js ''30'') = 30"
    "decimalValue (js ''1'') = 1" "decimalValue (js ''02'') = 2"
    "decimalValue (js ''03'') = 3"
    by code_simp+
  have a: "spec_cleaned (js ''01:30'') = js ''01'' @ [colon] @ js ''30'' \<and>
      colon \<notin> set (js ''01'') \<and> colon \<notin> set (js ''30'')"
    by code_simp
  have b: "spec_cleaned (js ''1:02:03'') = js ''1'' @ [colon] @ js ''02'' @ [colon] @ js ''03'' \<and>
      colon \<notin> set (js ''1'') \<and> colon \<notin> set (js ''02'') \<and> colon \<notin> set (js ''03'')"
    by code_simp
  have c: "count_list (spec_cleaned (js ''90'')) colon \<noteq> 1 \<and>
      count_list (spec_cleaned (js ''90'')) colon \<noteq> 2"
    by code_simp
  have d: "count_list (spec_cleaned (js ''1:2:3:4'')) colon \<noteq> 1 \<and>
      count_list (spec_cleaned (js ''1:2:3:4'')) colon \<noteq> 2"
    by code_simp
  have "decimalValue (js ''01'') * 60 + decimalValue (js ''30'') < 2 ^ 53 \<longrightarrow>
      parseTime (js ''01:30'') =
        Some (Num (real (decimalValue (js ''01'') * 60 + decimalValue (js ''30''))))"
    using parseTime_total [of "js ''01:30''"] a by blast
  then have 1: "parseTime (js ''01:30'') = Some (Num 90)" unfolding n by simp
  have "decimalValue (js ''1'') * 3600 + decimalValue (js ''02'') * 60 + decimalValue (js ''03'') < 2 ^ 53 \<longrightarrow>
      parseTime (js ''1:02:03'') =
        Some (Num (real (decimalValue (js ''1'') * 3600 + decimalValue (js ''02'') * 60
                         + decimalValue (js ''03''))))"
    using parseTime_total [of "js ''1:02:03''"] b by blast
  then have 2: "parseTime (js ''1:02:03'') = Some (Num 3723)" unfolding n by simp
  have 3: "parseTime (js ''90'') = Some (Num 0)"
    using parseTime_total [of "js ''90''"] c by blast
  have 4: "parseTime (js ''1:2:3:4'') = Some (Num 0)"
    using parseTime_total [of "js ''1:2:3:4''"] d by blast
  from 1 2 3 4 show ?thesis by simp
qed

section \<open>Properties of the export\<close>

lemma exportInv_cases:
  "exportInv c n d s = (recordingInv c n d s \<or> stoppedInv c n d s \<or> savedInv c n d s)"
  by (auto simp: exportInv_def recordingInv_def stoppedInv_def savedInv_def)

lemmas handler_defs = handleTimeUpdate_def finishExport_def onstop_def ondataavailable_def
  exportPlayFailed_def stopCalls_def downloads_def Let_def

lemma recording_step:
  "recordingInv c n d s \<Longrightarrow> recordingInv c n d (step e s) \<or> stoppedInv c n d (step e s)"
  by (cases e) (auto simp: recordingInv_def stoppedInv_def handler_defs split: option.splits)

lemma stopped_step:
  "stoppedInv c n d s \<Longrightarrow> stoppedInv c n d (step e s) \<or> savedInv c n d (step e s)"
  by (cases e) (auto simp: stoppedInv_def savedInv_def handler_defs split: option.splits)

lemma saved_step:
  "savedInv c n d s \<Longrightarrow> savedInv c n d (step e s)"
  by (cases e) (auto simp: savedInv_def handler_defs split: option.splits)

lemma exportInv_step: "exportInv c n d s \<Longrightarrow> exportInv c n d (step e s)"
  using recording_step stopped_step saved_step unfolding exportInv_cases by blast

lemma exportInv_run: "exportInv c n d s \<Longrightarrow> exportInv c n d (run es s)"
  by (induction es arbitrary: s) (simp_all add: exportInv_step)

lemma run_append: "run (es1 @ es2) s = run es2 (run es1 s)"
  by (induction es1 arbitrary: s) simp_all

lemma recording_step_before:
  "recordingInv c n d s \<Longrightarrow> (\<And>t. e = TimeUpdate t \<Longrightarrow> t < endSeconds c) \<Longrightarrow>
     recordingInv c n d (step e s)"
  by (cases e) (auto simp: recordingInv_def handler_defs split: option.splits)

lemma recording_run_before:
  "recordingInv c n d s \<Longrightarrow> (\<And>t. TimeUpdate t \<in> set es \<Longrightarrow> t < endSeconds c) \<Longrightarrow>
     recordingInv c n d (run es s)"
  by (induction es arbitrary: s) (simp_all add: recording_step_before del: step.simps)

lemma exporting_step_before:
  "recordingInv c n d s \<Longrightarrow> isExporting s \<Longrightarrow> e \<noteq> PlayRejected \<Longrightarrow>
     (\<And>t. e = TimeUpdate t \<Longrightarrow> t < endSeconds c) \<Longrightarrow> isExporting (step e s)"
  by (cases e) (auto simp: recordingInv_def handler_defs split: option.splits)

lemma exporting_run_before:
  "recordingInv c n d s \<Longrightarrow> isExporting s \<Longrightarrow> PlayRejected \<notin> set es \<Longrightarrow>
     (\<And>t. TimeUpdate t \<in> set es \<Longrightarrow> t < endSeconds c) \<Longrightarrow> isExporting (run es s)"
proof (induction es arbitrary: s)
  case Nil
  then show ?case by simp
next
  case (Cons e es)
  have r: "recordingInv c n d (step e s)"
    using Cons.prems by (intro recording_step_before) auto
  have x: "isExporting (step e s)"
    using Cons.prems by (intro exporting_step_before [of c n d]) auto
  from Cons.IH [OF r x] Cons.prems show ?case by simp
qed

lemma boundary_step:
  "recordingInv c n d s \<Longrightarrow> isExporting s \<Longrightarrow> endSeconds c \<le> t \<Longrightarrow>
     stoppedInv c n d (step (TimeUpdate t) s)"
  by (auto simp: recordingInv_def stoppedInv_def handler_defs split: option.splits)

lemma stopped_step_waiting:
  "stoppedInv c n d s \<Longrightarrow> (\<And>x. e \<noteq> RecorderStopped x) \<Longrightarrow> stoppedInv c n d (step e s)"
  by (cases e) (auto simp: stoppedInv_def handler_defs split: option.splits)

lemma stopped_run_waiting:
  "stoppedInv c n d s \<Longrightarrow> (\<And>x. RecorderStopped x \<notin> set es) \<Longrightarrow> stoppedInv c n d (run es s)"
proof (induction es arbitrary: s)
  case Nil
  then show ?case by simp
next
  case (Cons e es)
  have "stoppedInv c n d (step e s)"
    using Cons.prems by (intro stopped_step_waiting) auto
  from Cons.IH [OF this] Cons.prems show ?case by simp
qed

lemma stopped_delivered:
  "stoppedInv c n d s \<Longrightarrow> savedInv c n d (step (RecorderStopped x) s)"
  by (auto simp: stoppedInv_def savedInv_def handler_defs split: option.splits)

lemma saved_run: "savedInv c n d s \<Longrightarrow> savedInv c n d (run es s)"
  by (induction es arbitrary: s) (simp_all add: saved_step del: step.simps)

lemma export_started:
  "videoRef s = Some v \<Longrightarrow> canvasRef s \<Longrightarrow> activeClip s = Some c \<Longrightarrow> captureOk p \<Longrightarrow>
     recordingInv c (stopCalls s) (downloads s) (handleDownloadClip p s) \<and>
     isExporting (handleDownloadClip p s) \<and>
     map_option v_currentTime (videoRef (handleDownloadClip p s)) = Some (startSeconds c)"
  by (simp add: recordingInv_def handleDownloadClip_def stopCalls_def downloads_def Let_def)

lemma finishExport_idem: "finishExport (finishExport x) = finishExport x"
  by (simp add: finishExport_def split: option.splits)

lemma finishExport_inactive:
  "mediaRecorderRef x = Some r \<Longrightarrow> r_state r = Inactive \<Longrightarrow> finishExport x = x"
  by (simp add: finishExport_def)

text \<open>
  Claim C7. After an export has started on a clip, whatever events follow: the recorder
  is stopped at most once and at most one file is saved, and none is saved without a
  stop. The export starts with the video at the clip's start; as long as every reported
  position is before the clip's end (less than the clip's duration has been played)
  nothing is stopped or saved. When the play promise has not been rejected, the first
  tick at or past the end stops the recorder, and the recorder's stop event that follows
  saves the file, once. \<open>finishExport\<close> is idempotent and does nothing on an inactive
  recorder.
\<close>

theorem export_finalizes_once:
  assumes "videoRef s = Some v" "canvasRef s" "activeClip s = Some c" "captureOk p"
  shows "stopCalls (run es (handleDownloadClip p s)) \<le> stopCalls s + 1 \<and>
         downloads (run es (handleDownloadClip p s)) \<le> downloads s + 1 \<and>
         downloads (run es (handleDownloadClip p s)) - downloads s
           \<le> stopCalls (run es (handleDownloadClip p s)) - stopCalls s \<and>
         map_option v_currentTime (videoRef (handleDownloadClip p s)) = Some (startSeconds c) \<and>
         ((\<forall>t. TimeUpdate t \<in> set es \<longrightarrow> t < endSeconds c) \<longrightarrow>
            stopCalls (run es (handleDownloadClip p s)) = stopCalls s \<and>
            downloads (run es (handleDownloadClip p s)) = downloads s) \<and>
         ((\<forall>t. TimeUpdate t \<in> set es \<longrightarrow> t < endSeconds c) \<and> PlayRejected \<notin> set es \<and>
          endSeconds c \<le> u \<and> (\<forall>x. RecorderStopped x \<notin> set ws) \<longrightarrow>
            stopCalls (run (es @ [TimeUpdate u]) (handleDownloadClip p s)) = stopCalls s + 1 \<and>
            downloads (run (es @ [TimeUpdate u]) (handleDownloadClip p s)) = downloads s \<and>
            stopCalls (run (es @ TimeUpdate u # ws @ RecorderStopped d # rest) (handleDownloadClip p s))
              = stopCalls s + 1 \<and>
            downloads (run (es @ TimeUpdate u # ws @ RecorderStopped d # rest) (handleDownloadClip p s))
              = downloads s + 1) \<and>
         finishExport (finishExport x) = finishExport x \<and>
         ((\<exists>r. mediaRecorderRef x = Some r \<and> r_state r = Inactive) \<longrightarrow> finishExport x = x)"
proof -
  let ?s0 = "handleDownloadClip p s"
  let ?n = "stopCalls s" and ?d = "downloads s"
  from export_started [OF assms]
  have rec: "recordingInv c ?n ?d ?s0" and ex: "isExporting ?s0"
    and vid: "map_option v_currentTime (videoRef ?s0) = Some (startSeconds c)"
    by simp_all
  have inv: "exportInv c ?n ?d (run es ?s0)"
    using rec by (intro exportInv_run) (simp add: exportInv_cases)
  then have a: "stopCalls (run es ?s0) \<le> ?n + 1 \<and> downloads (run es ?s0) \<le> ?d + 1 \<and>
      downloads (run es ?s0) - ?d \<le> stopCalls (run es ?s0) - ?n"
    by (auto simp: exportInv_def)
  have b: "stopCalls (run es ?s0) = ?n \<and> downloads (run es ?s0) = ?d"
    if "\<forall>t. TimeUpdate t \<in> set es \<longrightarrow> t < endSeconds c"
    using recording_run_before [OF rec, of es] that by (simp add: recordingInv_def)
  have c: "stopCalls (run (es @ [TimeUpdate u]) ?s0) = ?n + 1 \<and>
      downloads (run (es @ [TimeUpdate u]) ?s0) = ?d \<and>
      stopCalls (run (es @ TimeUpdate u # ws @ RecorderStopped d # rest) ?s0) = ?n + 1 \<and>
      downloads (run (es @ TimeUpdate u # ws @ RecorderStopped d # rest) ?s0) = ?d + 1"
    if h: "(\<forall>t. TimeUpdate t \<in> set es \<longrightarrow> t < endSeconds c) \<and> PlayRejected \<notin> set es \<and>
          endSeconds c \<le> u \<and> (\<forall>x. RecorderStopped x \<notin> set ws)"
  proof -
    have r1: "recordingInv c ?n ?d (run es ?s0)"
      using recording_run_before [OF rec, of es] h by simp
    have e1: "isExporting (run es ?s0)"
      using exporting_run_before [OF rec ex, of es] h by simp
    have st: "stoppedInv c ?n ?d (step (TimeUpdate u) (run es ?s0))"
      using boundary_step [OF r1 e1] h by simp
    have st2: "stoppedInv c ?n ?d (run ws (step (TimeUpdate u) (run es ?s0)))"
      using stopped_run_waiting [OF st, of ws] h by simp
    have sv: "savedInv c ?n ?d (run rest (step (RecorderStopped d) (run ws (step (TimeUpdate u) (run es ?s0)))))"
      by (intro saved_run stopped_delivered st2)
    have eq1: "run (es @ [TimeUpdate u]) ?s0 = step (TimeUpdate u) (run es ?s0)"
      by (simp add: run_append del: step.simps)
    have eq2: "run (es @ TimeUpdate u # ws @ RecorderStopped d # rest) ?s0 =
        run rest (step (RecorderStopped d) (run ws (step (TimeUpdate u) (run es ?s0))))"
      by (simp add: run_append del: step.simps)
    from st sv show ?thesis unfolding eq1 eq2 by (simp add: stoppedInv_def savedInv_def)
  qed
  have d1: "finishExport (finishExport x) = finishExport x" by (rule finishExport_idem)
  have d2: "finishExport x = x" if "\<exists>r. mediaRecorderRef x = Some r \<and> r_state r = Inactive"
    using that finishExport_inactive by blast
  from a vid b c d1 d2 show ?thesis by blast
qed

theorem export_finalizes_once_witness:
  "stopCalls (run [TimeUpdate 20, TimeUpdate 39.9] (handleDownloadClip chromium (mounted scenarioClip))) = 0 \<and>
   stopCalls (run [TimeUpdate 20, TimeUpdate 40] (handleDownloadClip chromium (mounted scenarioClip))) = 1 \<and>
   stopCalls (run [TimeUpdate 20, TimeUpdate 40, TimeUpdate 40.1, RecorderStopped [1], TimeUpdate 40.1]
     (handleDownloadClip chromium (mounted scenarioClip))) = 1 \<and>
   downloads (run [TimeUpdate 20, TimeUpdate 40, TimeUpdate 40.1, RecorderStopped [1], TimeUpdate 40.1]
     (handleDownloadClip chromium (mounted scenarioClip))) = 1"
proof -
  have h: "videoRef (mounted scenarioClip) = Some \<lparr>v_currentTime = 10, v_paused = True\<rparr>"
    "canvasRef (mounted scenarioClip)" "activeClip (mounted scenarioClip) = Some scenarioClip"
    "captureOk chromium"
    by (simp_all add: mounted_def scenarioClip_def chromium_def)
  have z: "stopCalls (mounted scenarioClip) = 0" "downloads (mounted scenarioClip) = 0"
    by (simp_all add: mounted_def stopCalls_def downloads_def)
  have e: "endSeconds scenarioClip = 40" by (simp add: scenarioClip_def)
  from export_finalizes_once [OF h, where es = "[TimeUpdate 20, TimeUpdate 39.9]"]
  have 1: "stopCalls (run [TimeUpdate 20, TimeUpdate 39.9] (handleDownloadClip chromium (mounted scenarioClip))) = 0"
    unfolding z e by (simp del: run.simps step.simps)
  from export_finalizes_once [OF h, where es = "[TimeUpdate 20]" and u = 40
      and ws = "[TimeUpdate 40.1]" and d = "[1]" and rest = "[TimeUpdate 40.1]"]
  have 2: "stopCalls (run [TimeUpdate 20, TimeUpdate 40] (handleDownloadClip chromium (mounted scenarioClip))) = 1 \<and>
   stopCalls (run [TimeUpdate 20, TimeUpdate 40, TimeUpdate 40.1, RecorderStopped [1], TimeUpdate 40.1]
     (handleDownloadClip chromium (mounted scenarioClip))) = 1 \<and>
   downloads (run [TimeUpdate 20, TimeUpdate 40, TimeUpdate 40.1, RecorderStopped [1], TimeUpdate 40.1]
     (handleDownloadClip chromium (mounted scenarioClip))) = 1"
    unfolding z e by (simp del: run.simps step.simps)
  from 1 2 show ?thesis by simp
qed

text \<open>
  Claim C5, as stated, fails: the handler of the rejected play promise does not stop
  the recorder. After the rejection the recorder is still recording, no stop call has
  been made, and later ticks up to the clip's end do not stop it either.
\<close>

theorem export_abort_counterexample:
  "map_option r_state
     (mediaRecorderRef (step PlayRejected (handleDownloadClip chromium (mounted scenarioClip))))
     = Some Recording \<and>
   RecorderStop \<notin> set (effects (step PlayRejected (handleDownloadClip chromium (mounted scenarioClip)))) \<and>
   map_option r_state
     (mediaRecorderRef (run [PlayRejected, TimeUpdate 25, TimeUpdate 40]
        (handleDownloadClip chromium (mounted scenarioClip))))
     = Some Recording"
  by (simp add: handleDownloadClip_def mounted_def chromium_def scenarioClip_def handler_defs)

lemma aborted_step:
  "recordingInv c n d s \<Longrightarrow> \<not> isExporting s \<Longrightarrow> \<not> exportPlayPending s \<Longrightarrow>
     recordingInv c n d (step e s) \<and> \<not> isExporting (step e s) \<and> \<not> exportPlayPending (step e s)"
  by (cases e) (auto simp: recordingInv_def handler_defs split: option.splits)

lemma aborted_run:
  "recordingInv c n d s \<Longrightarrow> \<not> isExporting s \<Longrightarrow> \<not> exportPlayPending s \<Longrightarrow>
     recordingInv c n d (run es s) \<and> \<not> isExporting (run es s)"
proof (induction es arbitrary: s)
  case Nil
  then show ?case by simp
next
  case (Cons e es)
  from aborted_step [OF Cons.prems, of e] Cons.IH [of "step e s"] show ?case by simp
qed

text \<open>
  Claim C5, amended. When the play promise of an export is rejected, \<open>isExporting\<close>
  returns to false, one error is logged, the chunk buffer is empty, and no download is
  triggered, neither then nor by any later event.
\<close>

theorem export_play_failure:
  assumes "videoRef s = Some v" "canvasRef s" "activeClip s = Some c" "captureOk p"
  shows "isExporting (step PlayRejected (handleDownloadClip p s)) = False \<and>
         effects (step PlayRejected (handleDownloadClip p s)) =
           effects s @ [VideoPause, RecorderStart, VideoPlay,
                        ConsoleError (js ''Export playback failed'')] \<and>
         recordedChunksRef (step PlayRejected (handleDownloadClip p s)) = [] \<and>
         downloads (run es (step PlayRejected (handleDownloadClip p s))) = downloads s \<and>
         isExporting (run es (step PlayRejected (handleDownloadClip p s))) = False"
proof -
  let ?s0 = "handleDownloadClip p s"
  let ?s1 = "step PlayRejected ?s0"
  have s0: "exportPlayPending ?s0" "recordedChunksRef ?s0 = []"
    "effects ?s0 = effects s @ [VideoPause, RecorderStart, VideoPlay]"
    using assms by (simp_all add: handleDownloadClip_def Let_def)
  have s1: "?s1 = exportPlayFailed (?s0\<lparr>exportPlayPending := False\<rparr>)"
    using s0(1) by simp
  have f: "isExporting ?s1 = False" "recordedChunksRef ?s1 = []" "\<not> exportPlayPending ?s1"
    "effects ?s1 = effects s @ [VideoPause, RecorderStart, VideoPlay,
                        ConsoleError (js ''Export playback failed'')]"
    unfolding s1 using s0 by (simp_all add: exportPlayFailed_def)
  have "recordingInv c (stopCalls s) (downloads s) ?s0"
    using export_started [OF assms] by simp
  then have r: "recordingInv c (stopCalls s) (downloads s) ?s1"
    by (intro recording_step_before) simp_all
  from aborted_run [OF r, of es] f
  have "downloads (run es ?s1) = downloads s" "isExporting (run es ?s1) = False"
    by (simp_all add: recordingInv_def)
  with f show ?thesis by simp
qed

theorem export_play_failure_witness:
  "isExporting (step PlayRejected (handleDownloadClip chromium (mounted scenarioClip))) = False \<and>
   effects (step PlayRejected (handleDownloadClip chromium (mounted scenarioClip))) =
     [VideoPause, RecorderStart, VideoPlay, ConsoleError (js ''Export playback failed'')] \<and>
   downloads (run [TimeUpdate 25, TimeUpdate 40, RecorderStopped [1]]
     (step PlayRejected (handleDownloadClip chromium (mounted scenarioClip)))) = 0"
proof -
  have h: "videoRef (mounted scenarioClip) = Some \<lparr>v_currentTime = 10, v_paused = True\<rparr>"
    "canvasRef (mounted scenarioClip)" "activeClip (mounted scenarioClip) = Some scenarioClip"
    "captureOk chromium"
    by (simp_all add: mounted_def scenarioClip_def chromium_def)
  have z: "effects (mounted scenarioClip) = []" "downloads (mounted scenarioClip) = 0"
    by (simp_all add: mounted_def downloads_def)
  from export_play_failure [OF h, where es = "[TimeUpdate 25, TimeUpdate 40, RecorderStopped [1]]"]
  show ?thesis unfolding z by (simp del: run.simps step.simps)
qed

end
